theory Spec2Isabelle
  imports Complex_Main "HOL-Library.Sublist" "HOL-Library.Multiset"
begin

section \<open>Python values\<close>

text \<open>
  A Python \<open>str\<close> is a sequence of Unicode code points, and \<open>len\<close>, \<open>in\<close>,
  \<open>rsplit\<close> and \<open>re.sub\<close> work on code points. The script's literals hold characters
  beyond ASCII (the title line, the two bar glyphs), so a string is modelled as the list of
  its code points. \<open>ascii\<close> turns an ASCII literal into that representation.
\<close>

type_synonym pystr = "nat list"

definition ascii :: "string \<Rightarrow> pystr" where
  "ascii s = map of_char s"

text \<open>
  The exceptions of the model. \<open>file_error\<close> holds exceptions of opening, reading and
  writing a file; \<open>TemplateError\<close> stands for what the template compiler of \<open>re.sub\<close>
  raises on a malformed replacement text (\<open>re.error\<close>, or \<open>IndexError\<close> for an unknown
  group name).
\<close>

datatype file_error = FileNotFoundError | PermissionError | IsADirectoryError | UnicodeDecodeError

datatype py_error =
  FileError file_error | TemplateError | ZeroDivisionError | OverflowError | IndexError

section \<open>String primitives used by the splicer\<close>

text \<open>\<open>s.find(sub)\<close>: the lowest index at which \<open>sub\<close> occurs, \<open>None\<close> for Python's -1.\<close>

fun find_str :: "pystr \<Rightarrow> pystr \<Rightarrow> nat option" where
  "find_str sub [] = (if sub = [] then Some 0 else None)"
| "find_str sub (c # cs) =
     (if prefix sub (c # cs) then Some 0 else map_option Suc (find_str sub cs))"

text \<open>\<open>s.rfind(sub)\<close>: the highest index at which \<open>sub\<close> occurs.\<close>

fun rfind_str :: "pystr \<Rightarrow> pystr \<Rightarrow> nat option" where
  "rfind_str sub [] = (if sub = [] then Some 0 else None)"
| "rfind_str sub (c # cs) =
     (case rfind_str sub cs of
        Some i \<Rightarrow> Some (Suc i)
      | None \<Rightarrow> if prefix sub (c # cs) then Some 0 else None)"

text \<open>\<open>sub in s\<close>.\<close>

definition contains :: "pystr \<Rightarrow> pystr \<Rightarrow> bool" where
  "contains sub s = (find_str sub s \<noteq> None)"

text \<open>\<open>s.rsplit(sep, 1)\<close> for a non-empty separator: one split, at the last occurrence;
  the list holds the string alone when the separator does not occur.\<close>

definition rsplit1 :: "pystr \<Rightarrow> pystr \<Rightarrow> pystr list" where
  "rsplit1 sep s =
     (case rfind_str sep s of
        None \<Rightarrow> [s]
      | Some i \<Rightarrow> [take i s, drop (i + length sep) s])"

section \<open>The markers and the section text of \<open>update_readme\<close>\<close>

definition start_marker :: pystr where
  "start_marker = ascii ''<!-- LANGUAGE_STATS_START -->''"

definition end_marker :: pystr where
  "end_marker = ascii ''<!-- LANGUAGE_STATS_END -->''"

text \<open>The title line \<open>## \<close> U+1F4CA \<open> \<close> U+4F7F U+7528 U+8A00 U+8A9E U+7D71 U+8A08.\<close>

definition title_line :: pystr where
  "title_line = ascii ''## '' @ [128202] @ ascii '' '' @ [20351, 29992, 35328, 35486, 32113, 35336]"

text \<open>The f-string
  \<^verbatim>\<open>f"{start_marker}\n## ... \n\n{stats_markdown}\n\n{end_marker}"\<close>.\<close>

definition stats_section :: "pystr \<Rightarrow> pystr" where
  "stats_section stats_markdown =
     start_marker @ [10] @ title_line @ [10, 10] @ stats_markdown @ [10, 10] @ end_marker"

section \<open>\<open>re.sub\<close> with the marker pattern\<close>

text \<open>
  \<open>re.sub\<close> hands a replacement text to the template compiler
  (\<open>re._parser.parse_template\<close>), which reads backslash escapes in it; a text with no
  backslash is taken as it is. The pattern of \<open>update_readme\<close> has no group, so a group
  reference other than group 0 (the whole match) is an error. A template is a list of
  literal code points and references to the whole match. Group names are read as CPython
  3.12 and later read them (ASCII decimal digits only).
\<close>

datatype titem = Lit nat | Group0

definition is_octdigit :: "nat \<Rightarrow> bool" where
  "is_octdigit c = (48 \<le> c \<and> c \<le> 55)"

definition is_digit :: "nat \<Rightarrow> bool" where
  "is_digit c = (48 \<le> c \<and> c \<le> 57)"

definition is_asciiletter :: "nat \<Rightarrow> bool" where
  "is_asciiletter c = ((65 \<le> c \<and> c \<le> 90) \<or> (97 \<le> c \<and> c \<le> 122))"

text \<open>The table \<open>ESCAPES\<close>: the letters a, b, f, n, r, t, v and the backslash.\<close>

definition escapes :: "nat \<Rightarrow> nat option" where
  "escapes c =
     (if c = 97 then Some 7 else if c = 98 then Some 8 else if c = 102 then Some 12
      else if c = 110 then Some 10 else if c = 114 then Some 13 else if c = 116 then Some 9
      else if c = 118 then Some 11 else if c = 92 then Some 92 else None)"

function parse_template :: "pystr \<Rightarrow> titem list option" where
  "parse_template [] = Some []"
| "parse_template (c # cs) =
     (if c \<noteq> 92 then map_option ((#) (Lit c)) (parse_template cs)
      else
        (case cs of
           [] \<Rightarrow> None
         | d # ds \<Rightarrow>
             if d = 103 then
               (case ds of
                  [] \<Rightarrow> None
                | l # ns \<Rightarrow>
                    if l \<noteq> 60 then None
                    else
                      (case dropWhile (\<lambda>x. x \<noteq> 62) ns of
                         [] \<Rightarrow> None
                       | g # rest \<Rightarrow>
                           if takeWhile (\<lambda>x. x \<noteq> 62) ns \<noteq> []
                              \<and> list_all (\<lambda>x. x = 48) (takeWhile (\<lambda>x. x \<noteq> 62) ns)
                           then map_option ((#) Group0) (parse_template rest)
                           else None))
             else if d = 48 then
               (case ds of
                  [] \<Rightarrow> Some [Lit 0]
                | e # es \<Rightarrow>
                    if is_octdigit e then
                      (case es of
                         [] \<Rightarrow> Some [Lit (e - 48)]
                       | f # fs \<Rightarrow>
                           if is_octdigit f
                           then map_option ((#) (Lit (8 * (e - 48) + (f - 48)))) (parse_template fs)
                           else map_option ((#) (Lit (e - 48))) (parse_template (f # fs)))
                    else map_option ((#) (Lit 0)) (parse_template (e # es)))
             else if is_digit d then
               (case ds of
                  e # f # fs \<Rightarrow>
                    if is_octdigit d \<and> is_octdigit e \<and> is_octdigit f
                       \<and> 64 * (d - 48) + 8 * (e - 48) + (f - 48) \<le> 255
                    then map_option ((#) (Lit (64 * (d - 48) + 8 * (e - 48) + (f - 48))))
                           (parse_template fs)
                    else None
                | _ \<Rightarrow> None)
             else
               (case escapes d of
                  Some v \<Rightarrow> map_option ((#) (Lit v)) (parse_template ds)
                | None \<Rightarrow>
                    if is_asciiletter d then None
                    else map_option (\<lambda>t. Lit 92 # Lit d # t) (parse_template ds))))"
  by pat_completeness auto
termination
proof -
  have shorter: "length ys < length xs" if "dropWhile P xs = y # ys"
    for P and xs ys :: pystr and y
    using length_dropWhile_le [of P xs] that by simp
  show ?thesis
    by (relation "measure length") (auto dest: shorter)
qed

text \<open>\<open>match.expand\<close>: the template with the matched text put at every reference.\<close>

fun expand_template :: "titem list \<Rightarrow> pystr \<Rightarrow> pystr" where
  "expand_template [] m = []"
| "expand_template (Lit c # t) m = c # expand_template t m"
| "expand_template (Group0 # t) m = m @ expand_template t m"

text \<open>
  The substitution of every match of
  \<^verbatim>\<open>re.escape(start_marker) + ".*?" + re.escape(end_marker)\<close> under \<open>re.DOTALL\<close>,
  scanning from the left: a match starts at the first start marker that an end marker
  follows and ends with the first end marker after it; the scan goes on behind the match.
  \<open>repl\<close> gets the matched text.
\<close>

function sub_matches :: "(pystr \<Rightarrow> pystr) \<Rightarrow> pystr \<Rightarrow> pystr" where
  "sub_matches repl s =
     (case find_str start_marker s of
        None \<Rightarrow> s
      | Some i \<Rightarrow>
          (case find_str end_marker (drop (i + length start_marker) s) of
             None \<Rightarrow> s
           | Some j \<Rightarrow>
               take i s
               @ repl (take (length start_marker + j + length end_marker) (drop i s))
               @ sub_matches repl (drop (i + length start_marker + j + length end_marker) s)))"
  by pat_completeness auto
termination
proof -
  have bound: "i + length sub \<le> length s" if "find_str sub s = Some i" for sub s i
    using that
  proof (induction s arbitrary: i)
    case Nil
    then show ?case by (simp split: if_splits)
  next
    case (Cons c cs)
    show ?case
    proof (cases "prefix sub (c # cs)")
      case True
      with Cons.prems prefix_length_le [of sub "c # cs"] show ?thesis by simp
    next
      case False
      with Cons.prems obtain j where "find_str sub cs = Some j" "i = Suc j" by auto
      with Cons.IH show ?thesis by fastforce
    qed
  qed
  have len: "length start_marker = 29"
    by (simp add: start_marker_def ascii_def)
  show ?thesis
  proof (relation "measure (\<lambda>(repl, s). length s)", goal_cases)
    case 1
    show ?case by simp
  next
    case (2 repl s i j)
    from bound [OF 2(1)] have "s \<noteq> []"
      by (cases s) (simp_all add: len)
    then show ?case
      by (simp add: len)
  qed
qed

declare sub_matches.simps [simp del]

text \<open>\<open>re.sub(pattern, repl, content, flags=re.DOTALL)\<close>: the template is compiled
  before the search, so a malformed one raises also when nothing matches.\<close>

definition re_sub :: "pystr \<Rightarrow> pystr \<Rightarrow> pystr option" where
  "re_sub repl content =
     (case parse_template repl of
        None \<Rightarrow> None
      | Some t \<Rightarrow> Some (sub_matches (expand_template t) content))"

section \<open>\<open>update_readme\<close>\<close>

text \<open>The document transformation of \<open>update_readme\<close>: from the text read and the
  rendered table to the text written.\<close>

definition splice :: "pystr \<Rightarrow> pystr \<Rightarrow> py_error + pystr" where
  "splice stats_markdown content =
     (if contains start_marker content \<and> contains end_marker content then
        (case re_sub (stats_section stats_markdown) content of
           None \<Rightarrow> Inl TemplateError
         | Some content' \<Rightarrow> Inr content')
      else if contains (ascii ''-->'') content then
        (case rsplit1 (ascii ''-->'') content of
           [p0, p1] \<Rightarrow> Inr (p0 @ ascii ''-->'' @ [10, 10] @ stats_section stats_markdown @ p1)
         | _ \<Rightarrow> Inl IndexError)
      else Inr (content @ [10, 10] @ stats_section stats_markdown))"

text \<open>
  The file system as \<open>update_readme\<close> meets it: what opening and reading a path as
  UTF-8 text yields, and what opening a path for writing and writing a text raises, if
  anything. After a write that succeeds the path reads back the text written.
\<close>

record filesystem =
  read_text :: "pystr \<Rightarrow> file_error + pystr"
  write_error :: "pystr \<Rightarrow> pystr \<Rightarrow> file_error option"

text \<open>
  \<open>update_readme(stats_markdown, readme_path)\<close>. The \<open>except\<close> clause names
  \<open>FileNotFoundError\<close> only; every other exception of the read leaves the function.
  \<open>Inl\<close> is an exception that leaves the function; the final \<open>print\<close> is not modelled.
\<close>

definition update_readme :: "pystr \<Rightarrow> pystr \<Rightarrow> filesystem \<Rightarrow> py_error + filesystem" where
  "update_readme stats_markdown readme_path fs =
     (case (case read_text fs readme_path of
              Inr text \<Rightarrow> Inr text
            | Inl FileNotFoundError \<Rightarrow> Inr (ascii ''# GitHub Profile'' @ [10, 10])
            | Inl e \<Rightarrow> Inl (FileError e)) of
        Inl e \<Rightarrow> Inl e
      | Inr content \<Rightarrow>
          (case splice stats_markdown content of
             Inl e \<Rightarrow> Inl e
           | Inr content' \<Rightarrow>
               (case write_error fs readme_path content' of
                  Some e \<Rightarrow> Inl (FileError e)
                | None \<Rightarrow>
                    Inr (fs\<lparr>read_text := (read_text fs)(readme_path := Inr content')\<rparr>))))"

section \<open>\<open>get_language_stats\<close>\<close>

text \<open>
  A repository record of the listing, with the two fields the function reads. The HTTP
  service is the pair of answers to the two kinds of request the function sends: the
  listing page with a given number, and the language statistics at a given URL; an answer
  is the status code with the parsed JSON body (the items of the language object, in
  their order). A Python \<open>dict\<close> is the list of its items in insertion order. Every
  answer is taken to be JSON of the shape the function reads (a list of repository
  objects, an object of integer counts), and a request to have one answer.
\<close>

record repo =
  fork :: bool
  languages_url :: pystr

type_synonym lang_map = "(pystr \<times> int) list"

record http =
  get_repos :: "nat \<Rightarrow> nat \<times> repo list"
  get_languages :: "pystr \<Rightarrow> nat \<times> lang_map"

text \<open>
  The \<open>while True\<close> loop over the pages. \<open>None\<close>: the loop does not end;
  \<open>Some None\<close>: a page answered with a status other than 200 and the function
  returns Python's \<open>None\<close>; \<open>Some (Some all_repos)\<close>: an empty page ended the loop.
\<close>

partial_function (option) fetch_repos ::
  "(nat \<Rightarrow> nat \<times> repo list) \<Rightarrow> nat \<Rightarrow> repo list \<Rightarrow> repo list option option" where
  "fetch_repos get page all_repos =
     (case get page of
        (status_code, repos) \<Rightarrow>
          if status_code \<noteq> 200 then Some None
          else if repos = [] then Some (Some all_repos)
          else fetch_repos get (page + 1) (all_repos @ repos))"

text \<open>\<open>language_bytes[lang] += bytes_count\<close> on a \<open>defaultdict(int)\<close>: a new key
  starts from 0 and goes to the end.\<close>

fun add_bytes :: "lang_map \<Rightarrow> pystr \<Rightarrow> int \<Rightarrow> lang_map" where
  "add_bytes [] lang bytes_count = [(lang, 0 + bytes_count)]"
| "add_bytes ((k, v) # m) lang bytes_count =
     (if k = lang then (k, v + bytes_count) # m else (k, v) # add_bytes m lang bytes_count)"

text \<open>The \<open>for repo in all_repos\<close> loop, with the accumulator \<open>language_bytes\<close>.\<close>

fun aggregate :: "(pystr \<Rightarrow> nat \<times> lang_map) \<Rightarrow> repo list \<Rightarrow> lang_map \<Rightarrow> lang_map" where
  "aggregate get [] language_bytes = language_bytes"
| "aggregate get (repo # repos) language_bytes =
     (if fork repo then aggregate get repos language_bytes
      else
        (case get (languages_url repo) of
           (status_code, languages) \<Rightarrow>
             if status_code = 200
             then aggregate get repos
                    (foldl (\<lambda>m (lang, bytes_count). add_bytes m lang bytes_count)
                       language_bytes languages)
             else aggregate get repos language_bytes))"

definition get_language_stats :: "http \<Rightarrow> lang_map option option" where
  "get_language_stats h =
     (case fetch_repos (get_repos h) 1 [] of
        None \<Rightarrow> None
      | Some None \<Rightarrow> Some None
      | Some (Some all_repos) \<Rightarrow> Some (Some (aggregate (get_languages h) all_repos [])))"

text \<open>The byte count a mapping holds for a language (0 for a missing key), and the
  byte count a language object reports for it.\<close>

definition bytes_of :: "lang_map \<Rightarrow> pystr \<Rightarrow> int" where
  "bytes_of m lang = (case map_of m lang of None \<Rightarrow> 0 | Some n \<Rightarrow> n)"

definition reported :: "lang_map \<Rightarrow> pystr \<Rightarrow> int" where
  "reported languages lang = sum_list (map snd (filter (\<lambda>(l, n). l = lang) languages))"

text \<open>A repository counts when it is no fork and its language request answers 200.\<close>

definition qualifies :: "(pystr \<Rightarrow> nat \<times> lang_map) \<Rightarrow> repo \<Rightarrow> bool" where
  "qualifies get r = (\<not> fork r \<and> fst (get (languages_url r)) = 200)"

section \<open>\<open>calculate_percentages\<close>\<close>

text \<open>
  The percentages are Python floats. \<open>calculate_percentages\<close> is the exact reading of
  the function: the sum, the quotient and the product are those of the rationals, which
  is the reading under which the specification states that the percentages add up to
  100. The function with the arithmetic of the interpreter is
  \<open>calculate_percentages_f64\<close> below. A division by a zero total raises.
  \<open>list.sort(key, reverse=True)\<close> is the stable sort of the reversed list, reversed.
\<close>

type_synonym entry = "pystr \<times> rat \<times> int"

definition percent_of :: "entry \<Rightarrow> rat" where
  "percent_of x = fst (snd x)"

definition calculate_percentages :: "lang_map \<Rightarrow> py_error + entry list" where
  "calculate_percentages language_bytes =
     (if language_bytes = [] then Inr []
      else
        (let total_bytes = sum_list (map snd language_bytes) in
         if total_bytes = 0 then Inl ZeroDivisionError
         else
           Inr (rev (sort_key percent_of
                  (rev (map (\<lambda>(lang, bytes_count).
                               (lang, (of_int bytes_count / of_int total_bytes) * 100, bytes_count))
                          language_bytes))))))"

section \<open>\<open>format_stats_markdown\<close>\<close>

text \<open>\<open>str(n)\<close> for an integer: the decimal digits, with a minus sign.\<close>

fun digits :: "nat \<Rightarrow> pystr" where
  "digits n = (if n < 10 then [48 + n] else digits (n div 10) @ [48 + n mod 10])"

declare digits.simps [simp del]

definition str_int :: "int \<Rightarrow> pystr" where
  "str_int i = (if i < 0 then 45 # digits (nat (- i)) else digits (nat i))"

text \<open>
  \<open>f"{x:.2f}"\<close>: the value rounded to hundredths, ties to the even neighbour, printed
  with two decimals. The quotients \<open>bytes_count / 1024\<close> and \<open>bytes_count / (1024 * 1024)\<close>
  are exact in binary floating point for every count below \<open>2 ^ 53\<close>, so for these the
  rational is the float. \<open>size_str\<close> is the exact reading of the size string; the string
  with the arithmetic of the interpreter is \<open>size_str_f64\<close> below.
\<close>

definition round_half_even :: "rat \<Rightarrow> int" where
  "round_half_even x =
     (if x - of_int \<lfloor>x\<rfloor> < 1 / 2 then \<lfloor>x\<rfloor>
      else if 1 / 2 < x - of_int \<lfloor>x\<rfloor> then \<lfloor>x\<rfloor> + 1
      else if even \<lfloor>x\<rfloor> then \<lfloor>x\<rfloor> else \<lfloor>x\<rfloor> + 1)"

definition format_2f :: "rat \<Rightarrow> pystr" where
  "format_2f x =
     (if x < 0 then [45] else [])
     @ digits (nat (round_half_even (\<bar>x\<bar> * 100) div 100))
     @ [46, 48 + nat (round_half_even (\<bar>x\<bar> * 100) mod 100) div 10,
            48 + nat (round_half_even (\<bar>x\<bar> * 100) mod 100) mod 10]"

definition size_str :: "int \<Rightarrow> pystr" where
  "size_str bytes_count =
     (if bytes_count \<ge> 1024 * 1024
      then format_2f (of_int bytes_count / (1024 * 1024)) @ ascii '' MB''
      else if bytes_count \<ge> 1024
      then format_2f (of_int bytes_count / 1024) @ ascii '' KB''
      else str_int bytes_count @ ascii '' bytes'')"

text \<open>\<open>int(bar_length * percent / 100)\<close>: \<open>int\<close> cuts towards zero.\<close>

definition filled_length :: "rat \<Rightarrow> int" where
  "filled_length percent =
     (if 0 \<le> 20 * percent / 100 then \<lfloor>20 * percent / 100\<rfloor> else \<lceil>20 * percent / 100\<rceil>)"

text \<open>The glyphs U+2588 (full block) and U+2591 (light shade); a string times a
  negative number is empty.\<close>

definition bar :: "rat \<Rightarrow> pystr" where
  "bar percent =
     replicate (nat (filled_length percent)) 9608
     @ replicate (nat (20 - filled_length percent)) 9617"

definition table_header :: pystr where
  "table_header =
     [124, 32, 35328, 35486, 32, 124, 32, 20351, 29992, 21106, 21512, 32, 124, 32,
      12467, 12540, 12489, 37327, 32, 124, 10]
     @ ascii ''|------|----------|----------|'' @ [10]"

definition no_data :: pystr where
  "no_data = [32113, 35336, 12487, 12540, 12479, 12364, 12354, 12426, 12414, 12379, 12435, 12290]"

definition table_row :: "entry \<Rightarrow> pystr" where
  "table_row x =
     (case x of (lang, percent, bytes_count) \<Rightarrow>
        ascii ''| '' @ lang @ ascii '' | '' @ format_2f percent @ ascii ''% '' @ bar percent
        @ ascii '' | '' @ size_str bytes_count @ ascii '' |'' @ [10])"

definition format_stats_markdown :: "entry list \<Rightarrow> pystr" where
  "format_stats_markdown percentages =
     (if percentages = [] then no_data
      else table_header @ concat (map table_row percentages))"

section \<open>The arithmetic of the interpreter: binary64\<close>

text \<open>
  A Python float is an IEEE 754 binary64 number: 53 significant bits, the least spacing
  \<open>2 ^ -1074\<close>, every finite value below \<open>2 ^ 1024\<close> in magnitude. A float is modelled
  by its exact value, a rational, or it is the negative zero or an infinity (no operation
  of the script yields a NaN). \<open>pow2\<close> is the power of two with an integer exponent and
  \<open>bit_length\<close> is \<open>int.bit_length\<close>.
\<close>

datatype pyfloat = Finite rat | NegZero | PosInf | NegInf

definition pow2 :: "int \<Rightarrow> rat" where
  "pow2 k = (if 0 \<le> k then 2 ^ nat k else 1 / 2 ^ nat (- k))"

fun bit_length :: "nat \<Rightarrow> nat" where
  "bit_length n = (if n = 0 then 0 else Suc (bit_length (n div 2)))"

declare bit_length.simps [simp del]

text \<open>For a positive \<open>y\<close>, the exponent \<open>e\<close> with \<open>2 ^ e \<le> y < 2 ^ (e + 1)\<close>.\<close>

definition floor_log2 :: "rat \<Rightarrow> int" where
  "floor_log2 y =
     (if 1 \<le> y then int (bit_length (nat \<lfloor>y\<rfloor>)) - 1
      else - int (bit_length (nat \<lceil>1 / y\<rceil> - 1)))"

text \<open>
  Rounding a positive rational to the nearest binary64 magnitude, ties to the even
  significand: the spacing of the floats around \<open>y\<close> is \<open>2 ^ (e - 52)\<close>, and
  \<open>2 ^ -1074\<close> in the subnormal range. The result may be 0 (underflow) or reach
  \<open>2 ^ 1024\<close> (overflow).
\<close>

definition round_mag :: "rat \<Rightarrow> rat" where
  "round_mag y =
     of_int (round_half_even (y / pow2 (max (floor_log2 y - 52) (- 1074))))
     * pow2 (max (floor_log2 y - 52) (- 1074))"

definition round_double :: "rat \<Rightarrow> pyfloat" where
  "round_double x =
     (if x = 0 then Finite 0
      else if 2 ^ 1024 \<le> round_mag \<bar>x\<bar> then (if x < 0 then NegInf else PosInf)
      else if round_mag \<bar>x\<bar> = 0 then (if x < 0 then NegZero else Finite 0)
      else Finite (if x < 0 then - round_mag \<bar>x\<bar> else round_mag \<bar>x\<bar>))"

text \<open>
  \<open>a / b\<close> on two \<open>int\<close>s: the quotient of the integers, rounded once. A zero divisor
  raises \<open>ZeroDivisionError\<close>, a quotient beyond the floats raises \<open>OverflowError\<close>; a
  zero dividend gives the zero with the sign of the divisor.
\<close>

definition truediv :: "int \<Rightarrow> int \<Rightarrow> py_error + pyfloat" where
  "truediv a b =
     (if b = 0 then Inl ZeroDivisionError
      else if a = 0 then Inr (if b < 0 then NegZero else Finite 0)
      else
        (case round_double (of_int a / of_int b) of
           PosInf \<Rightarrow> Inl OverflowError
         | NegInf \<Rightarrow> Inl OverflowError
         | f \<Rightarrow> Inr f))"

text \<open>A float times the \<open>int\<close> 100: the product rounded; an overflow is an infinity.\<close>

definition times_100 :: "pyfloat \<Rightarrow> pyfloat" where
  "times_100 f =
     (case f of
        Finite x \<Rightarrow> round_double (x * 100)
      | NegZero \<Rightarrow> NegZero
      | PosInf \<Rightarrow> PosInf
      | NegInf \<Rightarrow> NegInf)"

text \<open>The order of the floats, as a rational key: the two zeros are equal, and every
  finite float lies between the infinities.\<close>

definition float_key :: "pyfloat \<Rightarrow> rat" where
  "float_key f =
     (case f of Finite x \<Rightarrow> x | NegZero \<Rightarrow> 0 | PosInf \<Rightarrow> 2 ^ 1024 | NegInf \<Rightarrow> - (2 ^ 1024))"


subsection \<open>\<open>calculate_percentages\<close> with floats\<close>

text \<open>The expression \<open>(bytes_count / total_bytes) * 100\<close>.\<close>

definition percentage :: "int \<Rightarrow> int \<Rightarrow> py_error + pyfloat" where
  "percentage bytes_count total_bytes =
     (case truediv bytes_count total_bytes of
        Inl e \<Rightarrow> Inl e
      | Inr q \<Rightarrow> Inr (times_100 q))"

type_synonym fentry = "pystr \<times> pyfloat \<times> int"

text \<open>The list comprehension over the items: the first division that raises ends it.\<close>

fun percent_entries :: "int \<Rightarrow> lang_map \<Rightarrow> py_error + fentry list" where
  "percent_entries total_bytes [] = Inr []"
| "percent_entries total_bytes ((lang, bytes_count) # rest) =
     (case percentage bytes_count total_bytes of
        Inl e \<Rightarrow> Inl e
      | Inr percent \<Rightarrow>
          (case percent_entries total_bytes rest of
             Inl e \<Rightarrow> Inl e
           | Inr ps \<Rightarrow> Inr ((lang, percent, bytes_count) # ps)))"

definition fpercent_of :: "fentry \<Rightarrow> pyfloat" where
  "fpercent_of x = fst (snd x)"

definition calculate_percentages_f64 :: "lang_map \<Rightarrow> py_error + fentry list" where
  "calculate_percentages_f64 language_bytes =
     (if language_bytes = [] then Inr []
      else
        (case percent_entries (sum_list (map snd language_bytes)) language_bytes of
           Inl e \<Rightarrow> Inl e
         | Inr percentages \<Rightarrow>
             Inr (rev (sort_key (\<lambda>x. float_key (fpercent_of x)) (rev percentages)))))"

subsection \<open>The size string with floats\<close>


section \<open>Facts about the string primitives\<close>

lemma dropWhile_Cons_shorter:
  "dropWhile P xs = y # ys \<Longrightarrow> length ys < length xs"
  using length_dropWhile_le [of P xs] by simp

lemma length_start_marker: "length start_marker = 29"
  by (simp add: start_marker_def ascii_def)

lemma find_str_None_iff: "find_str sub s = None \<longleftrightarrow> \<not> sublist sub s"
  by (induction s) (auto simp: sublist_Cons_right)

lemma contains_iff_sublist: "contains sub s \<longleftrightarrow> sublist sub s"
  by (simp add: contains_def find_str_None_iff)

lemma rfind_str_None_iff: "rfind_str sub s = None \<longleftrightarrow> \<not> sublist sub s"
  by (induction s) (auto simp: sublist_Cons_right split: option.splits)

lemma rfind_str_append_left:
  "rfind_str sub s = Some i \<Longrightarrow> rfind_str sub (p @ s) = Some (length p + i)"
  by (induction p) auto

lemma rfind_str_at_head:
  "\<not> sublist (h # t) (t @ r) \<Longrightarrow> rfind_str (h # t) (h # t @ r) = Some 0"
  by (simp add: rfind_str_None_iff [symmetric])

lemma rfind_str_last:
  assumes "\<not> sublist (h # t) (t @ r)"
  shows "rfind_str (h # t) (p @ (h # t) @ r) = Some (length p)"
  using rfind_str_append_left [OF rfind_str_at_head [OF assms], of p] by simp

lemma arrow_no_overlap:
  "\<not> sublist (ascii ''-->'') p1 \<Longrightarrow> \<not> sublist (ascii ''-->'') ([45, 62] @ p1)"
  by (simp add: ascii_def sublist_Cons_right)

lemma rsplit1_arrow:
  assumes "\<not> contains (ascii ''-->'') p1"
  shows "rsplit1 (ascii ''-->'') (p0 @ ascii ''-->'' @ p1) = [p0, p1]"
proof -
  have "\<not> sublist (45 # [45, 62]) ([45, 62] @ p1)"
    using arrow_no_overlap assms by (simp add: contains_iff_sublist ascii_def)
  from rfind_str_last [OF this, of p0]
  have "rfind_str (ascii ''-->'') (p0 @ ascii ''-->'' @ p1) = Some (length p0)"
    by (simp add: ascii_def)
  then show ?thesis
    by (simp add: rsplit1_def ascii_def)
qed

lemma contains_append_mid: "contains sub (p @ sub @ r)"
  by (auto simp: contains_iff_sublist sublist_def)

lemmas eval_defs = contains_def rsplit1_def ascii_def start_marker_def end_marker_def

subsection \<open>First occurrences\<close>

lemma find_str_None_contains: "find_str sub s = None \<longleftrightarrow> \<not> contains sub s"
  by (simp add: contains_def)

lemma prefix_over_copy:
  assumes "prefix (h # t) (u @ (h # t) @ r)" and "u \<noteq> []" and "h \<notin> set t"
  shows "prefix (h # t) u"
proof -
  from assms(1) consider "prefix (h # t) u"
    | us where "h # t = u @ us" "prefix us ((h # t) @ r)"
    using prefix_append [of "h # t" u "(h # t) @ r"] by blast
  then show ?thesis
  proof cases
    case 1
    then show ?thesis .
  next
    case 2
    show ?thesis
    proof (cases us)
      case Nil
      with 2 show ?thesis by simp
    next
      case (Cons x us')
      with 2(2) have "x = h" by simp
      moreover from 2(1) assms(2) Cons have "x \<in> set t"
        by (cases u) auto
      ultimately show ?thesis using assms(3) by simp
    qed
  qed
qed

lemma find_str_first:
  assumes "h \<notin> set t" and "\<not> sublist (h # t) u"
  shows "find_str (h # t) (u @ (h # t) @ r) = Some (length u)"
  using assms(2)
proof (induction u)
  case Nil
  show ?case by simp
next
  case (Cons c cs)
  have "\<not> prefix (h # t) ((c # cs) @ (h # t) @ r)"
  proof
    assume "prefix (h # t) ((c # cs) @ (h # t) @ r)"
    from prefix_over_copy [OF this _ assms(1)] have "prefix (h # t) (c # cs)" by simp
    with Cons.prems show False by (simp add: sublist_Cons_right)
  qed
  moreover from Cons.prems have "\<not> sublist (h # t) cs"
    by (simp add: sublist_Cons_right)
  ultimately show ?case using Cons.IH by simp
qed

lemma find_str_SomeD:
  assumes "find_str sub s = Some i" and "sub \<noteq> []"
  shows "s = take i s @ sub @ drop (i + length sub) s \<and> \<not> sublist sub (take i s)"
  using assms(1)
proof (induction s arbitrary: i)
  case Nil
  with assms(2) show ?case by simp
next
  case (Cons c cs)
  show ?case
  proof (cases "prefix sub (c # cs)")
    case True
    with Cons.prems have "i = 0" by simp
    moreover from True obtain r where "c # cs = sub @ r" by (auto simp: prefix_def)
    ultimately show ?thesis using assms(2) by simp
  next
    case False
    with Cons.prems obtain j where j: "find_str sub cs = Some j" "i = Suc j" by auto
    from Cons.IH [OF j(1)]
    have 1: "cs = take j cs @ sub @ drop (j + length sub) cs" and 2: "\<not> sublist sub (take j cs)"
      by simp_all
    have "\<not> prefix sub (c # take j cs)"
    proof
      assume "prefix sub (c # take j cs)"
      moreover have "prefix (c # take j cs) (c # cs)" by (simp add: take_is_prefix)
      ultimately have "prefix sub (c # cs)" by (rule prefix_order.trans)
      with False show False ..
    qed
    with 2 have "\<not> sublist sub (take i (c # cs))"
      by (simp add: j(2) sublist_Cons_right)
    moreover from 1 have "c # cs = take i (c # cs) @ sub @ drop (i + length sub) (c # cs)"
      by (simp add: j(2))
    ultimately show ?thesis by simp
  qed
qed

lemma sublist_drop_left:
  assumes "sublist (h # t) (u @ v)" and "h \<notin> set u"
  shows "sublist (h # t) v"
proof -
  from assms(1) consider "sublist (h # t) u" | "sublist (h # t) v"
    | xs1 xs2 where "h # t = xs1 @ xs2" "suffix xs1 u" "prefix xs2 v"
    using sublist_append [of "h # t" u v] by blast
  then show ?thesis
  proof cases
    case 1
    then have "h \<in> set u" using set_mono_sublist by fastforce
    with assms(2) show ?thesis by simp
  next
    case 2
    then show ?thesis .
  next
    case 3
    show ?thesis
    proof (cases xs1)
      case Nil
      with 3 show ?thesis by (simp add: prefix_imp_sublist)
    next
      case (Cons x xs)
      with 3(1) have "x = h" by simp
      with 3(2) Cons have "h \<in> set u"
        using set_mono_suffix by fastforce
      with assms(2) show ?thesis by simp
    qed
  qed
qed

lemma sublist_drop_right:
  assumes "sublist sub (v @ w)" and "set sub \<inter> set w = {}" and "sub \<noteq> []"
  shows "sublist sub v"
proof -
  from assms(1) consider "sublist sub v" | "sublist sub w"
    | xs1 xs2 where "sub = xs1 @ xs2" "suffix xs1 v" "prefix xs2 w"
    using sublist_append [of sub v w] by blast
  then show ?thesis
  proof cases
    case 1
    then show ?thesis .
  next
    case 2
    then have "set sub \<subseteq> set w" by (rule set_mono_sublist)
    with assms(2,3) show ?thesis by (cases sub) auto
  next
    case 3
    show ?thesis
    proof (cases xs2)
      case Nil
      with 3 show ?thesis by (simp add: suffix_imp_sublist)
    next
      case (Cons x xs)
      with 3(3) have "x \<in> set w" using set_mono_prefix by fastforce
      moreover from 3(1) Cons have "x \<in> set sub" by simp
      ultimately show ?thesis using assms(2) by auto
    qed
  qed
qed

lemma sublist_appendR: "sublist xs ys \<Longrightarrow> sublist xs (ys @ zs)"
  by (auto simp: sublist_def) (metis append.assoc)

lemma sublist_appendL: "sublist xs zs \<Longrightarrow> sublist xs (ys @ zs)"
  by (auto simp: sublist_def) (metis append.assoc)


subsection \<open>The markers\<close>

lemma start_marker_Cons: "start_marker = 60 # tl start_marker" "60 \<notin> set (tl start_marker)"
  by (simp_all add: start_marker_def ascii_def)

lemma end_marker_Cons: "end_marker = 60 # tl end_marker" "60 \<notin> set (tl end_marker)"
  by (simp_all add: end_marker_def ascii_def)

lemma marker_chars:
  "10 \<notin> set start_marker" "10 \<notin> set end_marker"
  "92 \<notin> set start_marker" "92 \<notin> set end_marker"
  "60 \<notin> set title_line" "92 \<notin> set title_line"
  by (simp_all add: start_marker_def end_marker_def title_line_def ascii_def)

lemma arrow_in_markers:
  "sublist (ascii ''-->'') start_marker" "sublist (ascii ''-->'') end_marker"
proof -
  have "start_marker = ascii ''<!-- LANGUAGE_STATS_START '' @ ascii ''-->''"
    by (simp add: start_marker_def ascii_def)
  then show "sublist (ascii ''-->'') start_marker"
    by (metis sublist_append_leftI)
  have "end_marker = ascii ''<!-- LANGUAGE_STATS_END '' @ ascii ''-->''"
    by (simp add: end_marker_def ascii_def)
  then show "sublist (ascii ''-->'') end_marker"
    by (metis sublist_append_leftI)
qed

lemma find_start_marker:
  assumes "\<not> contains start_marker u"
  shows "find_str start_marker (u @ start_marker @ r) = Some (length u)"
proof -
  from assms have "\<not> sublist (60 # tl start_marker) u"
    using start_marker_Cons(1) by (simp add: contains_iff_sublist)
  from find_str_first [OF start_marker_Cons(2) this, of r] show ?thesis
    using start_marker_Cons(1) by simp
qed

lemma find_end_marker:
  assumes "\<not> contains end_marker u"
  shows "find_str end_marker (u @ end_marker @ r) = Some (length u)"
proof -
  from assms have "\<not> sublist (60 # tl end_marker) u"
    using end_marker_Cons(1) by (simp add: contains_iff_sublist)
  from find_str_first [OF end_marker_Cons(2) this, of r] show ?thesis
    using end_marker_Cons(1) by simp
qed

subsection \<open>One step of the substitution\<close>

lemma sub_matches_no_start:
  "\<not> contains start_marker s \<Longrightarrow> sub_matches repl s = s"
  by (subst sub_matches.simps) (simp add: contains_def)

lemma sub_matches_no_end:
  "find_str start_marker s = Some i \<Longrightarrow>
   \<not> contains end_marker (drop (i + length start_marker) s) \<Longrightarrow> sub_matches repl s = s"
  by (subst sub_matches.simps) (simp add: contains_def)

lemma sub_matches_span:
  assumes "\<not> contains start_marker pre" and "\<not> contains end_marker mid"
  shows "sub_matches repl (pre @ start_marker @ mid @ end_marker @ rest)
         = pre @ repl (start_marker @ mid @ end_marker) @ sub_matches repl rest"
proof -
  let ?s = "pre @ start_marker @ mid @ end_marker @ rest"
  have 1: "find_str start_marker ?s = Some (length pre)"
    by (rule find_start_marker [OF assms(1)])
  have 2: "drop (length pre + length start_marker) ?s = mid @ end_marker @ rest"
    by simp
  have 3: "find_str end_marker (mid @ end_marker @ rest) = Some (length mid)"
    by (rule find_end_marker [OF assms(2)])
  have 4: "take (length start_marker + length mid + length end_marker) (drop (length pre) ?s)
           = start_marker @ mid @ end_marker"
    by simp
  have 5: "drop (length pre + length start_marker + length mid + length end_marker) ?s = rest"
    by simp
  have 0: "take (length pre) ?s = pre"
    by simp
  show ?thesis
    by (subst sub_matches.simps) (simp only: 0 1 2 3 4 5 option.case)
qed

text \<open>Every string either has no match or starts with a first match.\<close>

lemma sub_matches_cases:
  obtains (no_match) "\<And>repl. sub_matches repl s = s"
  | (span) pre mid rest where "s = pre @ start_marker @ mid @ end_marker @ rest"
      "\<not> contains start_marker pre" "\<not> contains end_marker mid"
proof (cases "find_str start_marker s")
  case None
  then have "\<And>repl. sub_matches repl s = s"
    by (simp add: sub_matches_no_start contains_def)
  then show ?thesis by (rule no_match)
next
  case (Some i)
  have ne: "start_marker \<noteq> []" "end_marker \<noteq> []"
    using start_marker_Cons(1) end_marker_Cons(1) by auto
  from find_str_SomeD [OF Some ne(1)]
  have s: "s = take i s @ start_marker @ drop (i + length start_marker) s"
    and pre: "\<not> contains start_marker (take i s)"
    by (simp_all add: contains_iff_sublist)
  show ?thesis
  proof (cases "find_str end_marker (drop (i + length start_marker) s)")
    case None
    then have "\<And>repl. sub_matches repl s = s"
      using Some by (simp add: sub_matches_no_end contains_def)
    then show ?thesis by (rule no_match)
  next
    case (Some j)
    let ?t = "drop (i + length start_marker) s"
    from find_str_SomeD [OF Some ne(2)]
    have t: "?t = take j ?t @ end_marker @ drop (j + length end_marker) ?t"
      and mid: "\<not> contains end_marker (take j ?t)"
      by (simp_all add: contains_iff_sublist)
    from s t have "s = take i s @ start_marker @ take j ?t @ end_marker @ drop (j + length end_marker) ?t"
      by metis
    then show ?thesis using pre mid by (rule span)
  qed
qed

lemma sub_matches_induct [case_names no_match span]:
  assumes base: "\<And>s. (\<And>repl. sub_matches repl s = s) \<Longrightarrow> P s"
    and step: "\<And>pre mid rest. \<not> contains start_marker pre \<Longrightarrow> \<not> contains end_marker mid \<Longrightarrow>
                 P rest \<Longrightarrow> P (pre @ start_marker @ mid @ end_marker @ rest)"
  shows "P s"
proof (induction s rule: length_induct)
  case (1 s)
  show ?case
  proof (cases s rule: sub_matches_cases)
    case no_match
    then show ?thesis by (rule base)
  next
    case (span pre mid rest)
    have "length rest < length s"
      unfolding span(1) by (simp add: length_start_marker)
    with 1 have "P rest" by blast
    with span show ?thesis using step by simp
  qed
qed

subsection \<open>Templates without a backslash\<close>

lemma parse_template_literal: "92 \<notin> set r \<Longrightarrow> parse_template r = Some (map Lit r)"
  by (induction r) auto

lemma expand_template_literal: "expand_template (map Lit r) m = r"
  by (induction r) auto

lemma re_sub_literal:
  assumes "92 \<notin> set r"
  shows "re_sub r content = Some (sub_matches (\<lambda>_. r) content)"
proof -
  have "expand_template (map Lit r) = (\<lambda>_. r)"
    by (rule ext) (rule expand_template_literal)
  then show ?thesis
    by (simp add: re_sub_def parse_template_literal [OF assms])
qed

subsection \<open>The section text\<close>

lemma stats_section_split:
  "stats_section stats = start_marker @ ([10] @ title_line @ [10, 10] @ stats @ [10, 10]) @ end_marker"
  by (simp add: stats_section_def)

lemma section_no_backslash: "92 \<notin> set stats \<Longrightarrow> 92 \<notin> set (stats_section stats)"
  by (simp add: stats_section_def marker_chars)

lemma body_no_end:
  assumes "\<not> contains end_marker stats"
  shows "\<not> contains end_marker ([10] @ title_line @ [10, 10] @ stats @ [10, 10])"
proof
  assume "contains end_marker ([10] @ title_line @ [10, 10] @ stats @ [10, 10])"
  then have "sublist (60 # tl end_marker) (([10] @ title_line @ [10, 10]) @ (stats @ [10, 10]))"
    using end_marker_Cons(1) by (simp add: contains_iff_sublist)
  then have "sublist (60 # tl end_marker) (stats @ [10, 10])"
    by (rule sublist_drop_left) (simp add: marker_chars)
  then have "sublist end_marker (stats @ [10, 10])"
    using end_marker_Cons(1) by simp
  then have "sublist end_marker stats"
    by (rule sublist_drop_right) (use marker_chars(2) end_marker_Cons(1) in auto)
  with assms show False by (simp add: contains_iff_sublist)
qed

lemma contains_section:
  "contains start_marker (p @ stats_section stats @ r)"
  "contains end_marker (p @ stats_section stats @ r)"
proof -
  have "p @ stats_section stats @ r
        = p @ start_marker @ ([10] @ title_line @ [10, 10] @ stats @ [10, 10] @ end_marker @ r)"
    by (simp add: stats_section_def)
  then show "contains start_marker (p @ stats_section stats @ r)"
    by (simp only: contains_append_mid)
  have "p @ stats_section stats @ r
        = (p @ start_marker @ [10] @ title_line @ [10, 10] @ stats @ [10, 10]) @ end_marker @ r"
    by (simp add: stats_section_def)
  then show "contains end_marker (p @ stats_section stats @ r)"
    by (simp only: contains_append_mid)
qed

lemma sub_matches_section:
  assumes "\<not> contains end_marker stats" and "\<not> contains start_marker pre"
  shows "sub_matches repl (pre @ stats_section stats @ rest)
         = pre @ repl (stats_section stats) @ sub_matches repl rest"
  using sub_matches_span [OF assms(2) body_no_end [OF assms(1)], of repl rest]
  by (simp add: stats_section_def)

lemma sub_matches_idem:
  assumes "\<not> contains end_marker stats"
  shows "sub_matches (\<lambda>_. stats_section stats) (sub_matches (\<lambda>_. stats_section stats) s)
         = sub_matches (\<lambda>_. stats_section stats) s"
proof (induction s rule: sub_matches_induct)
  case (no_match s)
  then show ?case by simp
next
  case (span pre mid rest)
  then show ?case
    by (simp add: sub_matches_span sub_matches_section [OF assms])
qed

lemma sub_matches_keeps_markers:
  assumes "contains start_marker s" and "contains end_marker s"
    and "\<And>m. contains start_marker (repl m) \<and> contains end_marker (repl m)"
  shows "contains start_marker (sub_matches repl s) \<and> contains end_marker (sub_matches repl s)"
proof (cases s rule: sub_matches_cases)
  case no_match
  with assms(1,2) show ?thesis by simp
next
  case (span pre mid rest)
  let ?m = "start_marker @ mid @ end_marker"
  have "sub_matches repl s = pre @ repl ?m @ sub_matches repl rest"
    unfolding span(1) by (rule sub_matches_span [OF span(2,3)])
  moreover have "sublist start_marker (pre @ repl ?m @ sub_matches repl rest)"
    using assms(3) [of ?m] by (simp add: contains_iff_sublist sublist_appendL sublist_appendR)
  moreover have "sublist end_marker (pre @ repl ?m @ sub_matches repl rest)"
    using assms(3) [of ?m] by (simp add: contains_iff_sublist sublist_appendL sublist_appendR)
  ultimately show ?thesis by (simp add: contains_iff_sublist)
qed

subsection \<open>The three branches of the splicer\<close>

lemma last_arrow_split:
  assumes "contains (ascii ''-->'') doc"
  shows "\<exists>p0 p1. doc = p0 @ ascii ''-->'' @ p1 \<and> \<not> contains (ascii ''-->'') p1"
proof -
  have "sublist a doc \<Longrightarrow> a \<noteq> [] \<Longrightarrow> \<exists>p0 p1. doc = p0 @ a @ p1 \<and> \<not> sublist a p1" for a :: pystr
  proof (induction doc)
    case Nil
    then show ?case by simp
  next
    case (Cons c cs)
    show ?case
    proof (cases "sublist a cs")
      case True
      with Cons obtain p0 p1 where "cs = p0 @ a @ p1" "\<not> sublist a p1" by blast
      then have "c # cs = (c # p0) @ a @ p1 \<and> \<not> sublist a p1" by simp
      then show ?thesis by blast
    next
      case False
      with Cons.prems have "prefix a (c # cs)" by (simp add: sublist_Cons_right)
      then obtain p1 where p1: "c # cs = a @ p1" by (auto simp: prefix_def)
      with Cons.prems(2) have "suffix p1 cs"
        by (cases a) (auto simp: suffix_def)
      then have "\<not> sublist a p1"
        using False by (meson sublist_order.order_trans suffix_imp_sublist)
      with p1 have "c # cs = [] @ a @ p1 \<and> \<not> sublist a p1" by simp
      then show ?thesis by blast
    qed
  qed
  from this [of "ascii ''-->''"] assms show ?thesis
    by (simp add: contains_iff_sublist ascii_def)
qed

lemma no_arrow_no_marker:
  assumes "\<not> contains (ascii ''-->'') s"
  shows "\<not> contains start_marker s" "\<not> contains end_marker s"
  using assms arrow_in_markers by (auto simp: contains_iff_sublist dest: sublist_order.order_trans)

lemma no_start_before_blank:
  assumes "\<not> contains start_marker s"
  shows "\<not> contains start_marker (s @ [10, 10])"
proof
  assume "contains start_marker (s @ [10, 10])"
  then have "sublist start_marker (s @ [10, 10])" by (simp add: contains_iff_sublist)
  then have "sublist start_marker s"
    by (rule sublist_drop_right) (use marker_chars(1) start_marker_Cons(1) in auto)
  with assms show False by (simp add: contains_iff_sublist)
qed

lemma splice_both:
  assumes "92 \<notin> set stats" and "contains start_marker doc" and "contains end_marker doc"
  shows "splice stats doc = Inr (sub_matches (\<lambda>_. stats_section stats) doc)"
  using assms(2,3) by (simp add: splice_def re_sub_literal [OF section_no_backslash [OF assms(1)]])

lemma splice_arrow:
  assumes "\<not> (contains start_marker doc \<and> contains end_marker doc)"
    and "doc = p0 @ ascii ''-->'' @ p1" and "\<not> contains (ascii ''-->'') p1"
  shows "splice stats doc = Inr (p0 @ ascii ''-->'' @ [10, 10] @ stats_section stats @ p1)"
proof -
  have "contains (ascii ''-->'') doc"
    unfolding assms(2) by (rule contains_append_mid)
  moreover have "rsplit1 (ascii ''-->'') doc = [p0, p1]"
    unfolding assms(2) by (rule rsplit1_arrow [OF assms(3)])
  ultimately show ?thesis
    using assms(1) by (auto simp: splice_def)
qed

lemma splice_append:
  assumes "\<not> contains (ascii ''-->'') doc"
  shows "splice stats doc = Inr (doc @ [10, 10] @ stats_section stats)"
  using assms no_arrow_no_marker [OF assms] by (simp add: splice_def)

subsection \<open>Templates with escapes\<close>

lemma parse_template_Lit_append:
  "92 \<notin> set lits \<Longrightarrow>
   parse_template (lits @ r) = map_option ((@) (map Lit lits)) (parse_template r)"
proof (induction lits)
  case Nil
  show ?case by (cases "parse_template r") simp_all
next
  case (Cons c cs)
  then show ?case by (cases "parse_template r") simp_all
qed

lemma expand_template_append:
  "expand_template (t1 @ t2) m = expand_template t1 m @ expand_template t2 m"
  by (induction t1 m rule: expand_template.induct) simp_all

lemma parse_template_tail:
  "parse_template (x @ 10 # 10 # end_marker) = Some t \<Longrightarrow> \<exists>t0. t = t0 @ map Lit end_marker"
proof (induction x arbitrary: t rule: length_induct)
  case (1 x)
  let ?T = "10 # 10 # end_marker"
  let ?L = "map Lit end_marker"
  note E = marker_chars(4)
  have IH: "\<exists>t0. t' = t0 @ ?L" if "length ys < length x" "parse_template (ys @ ?T) = Some t'"
    for ys t'
    using 1(1) that by blast
  have lit: "\<exists>t0. t' = t0 @ ?L" if "map_option f (parse_template (ys @ ?T)) = Some t'"
    "length ys < length x" "\<And>u. f u = p @ u" for f ys t' p
  proof -
    from that(1) obtain u where u: "parse_template (ys @ ?T) = Some u" "t' = f u" by auto
    from IH [OF that(2) u(1)] obtain t0 where "u = t0 @ ?L" ..
    with u(2) that(3) have "t' = (p @ t0) @ ?L" by simp
    then show ?thesis ..
  qed
  have T: "parse_template ?T = Some ([Lit 10, Lit 10] @ ?L)"
    using parse_template_literal [of ?T] E by simp
  have T1: "parse_template (10 # end_marker) = Some ([Lit 10] @ ?L)"
    using parse_template_literal [of "10 # end_marker"] E by simp
  show ?case
  proof (cases x)
    case Nil
    with 1(2) T show ?thesis by auto
  next
    case (Cons c cs)
    show ?thesis
    proof (cases "c = 92")
      case False
      with 1(2) Cons have "map_option ((#) (Lit c)) (parse_template (cs @ ?T)) = Some t" by simp
      then show ?thesis by (rule lit [where p = "[Lit c]"]) (simp_all add: Cons)
    next
      case True
      note c = True
      show ?thesis
      proof (cases cs)
        case Nil
        with 1(2) Cons c T1 have "t = [Lit 92, Lit 10, Lit 10] @ ?L"
          by (simp add: is_digit_def escapes_def is_asciiletter_def)
        then show ?thesis ..
      next
        case (Cons d ds)
        note cs = Cons
        have x: "x = 92 # d # ds" using \<open>x = c # cs\<close> c cs by simp
        consider (g) "d = 103" | (zero) "d = 48" | (digit) "d \<noteq> 48" "is_digit d"
          | (esc) v where "d \<noteq> 103" "\<not> is_digit d" "escapes d = Some v"
          | (other) "d \<noteq> 103" "\<not> is_digit d" "escapes d = None"
          by (cases "escapes d") (auto simp: is_digit_def)
        then show ?thesis
        proof cases
          case g
          show ?thesis
          proof (cases ds)
            case Nil
            with 1(2) x g show ?thesis by simp
          next
            case (Cons l ns)
            note ds = Cons
            show ?thesis
            proof (cases "l = 60")
              case False
              with 1(2) x g ds show ?thesis by simp
            next
              case True
              let ?P = "\<lambda>x::nat. x \<noteq> 62"
              show ?thesis
              proof (cases "62 \<in> set ns")
                case True
                then have dw: "dropWhile ?P (ns @ ?T) = dropWhile ?P ns @ ?T"
                  by (intro dropWhile_append1) auto
                from True obtain y rest where rest: "dropWhile ?P ns = y # rest"
                  by (cases "dropWhile ?P ns") (auto simp: dropWhile_eq_Nil_conv)
                from dropWhile_Cons_shorter [OF rest] have len: "length rest < length x"
                  by (simp add: x ds)
                from 1(2) x g ds \<open>l = 60\<close> dw rest
                have "map_option ((#) Group0) (parse_template (rest @ ?T)) = Some t"
                  by (simp split: if_splits)
                then show ?thesis by (rule lit [where p = "[Group0]"]) (simp_all add: len)
              next
                case False
                then have "takeWhile ?P (ns @ ?T) = ns @ takeWhile ?P ?T"
                  by (intro takeWhile_append2) auto
                then have "\<not> list_all (\<lambda>x. x = 48) (takeWhile ?P (ns @ ?T))"
                  by simp
                with 1(2) x g ds \<open>l = 60\<close> show ?thesis
                  by (simp split: list.splits)
              qed
            qed
          qed
        next
          case zero
          show ?thesis
          proof (cases ds)
            case Nil
            with 1(2) x zero T have "t = [Lit 0, Lit 10, Lit 10] @ ?L"
              by (simp add: is_octdigit_def)
            then show ?thesis ..
          next
            case (Cons e es)
            note ds = Cons
            show ?thesis
            proof (cases "is_octdigit e")
              case False
              with 1(2) x zero ds
              have "map_option ((#) (Lit 0)) (parse_template ((e # es) @ ?T)) = Some t"
                by simp
              then show ?thesis by (rule lit [where p = "[Lit 0]"]) (simp_all add: x ds)
            next
              case True
              note e = True
              show ?thesis
              proof (cases es)
                case Nil
                with 1(2) x zero ds e T
                have "t = [Lit (e - 48), Lit 10, Lit 10] @ ?L"
                  by (simp add: is_octdigit_def)
                then show ?thesis ..
              next
                case (Cons f fs)
                show ?thesis
                proof (cases "is_octdigit f")
                  case True
                  with 1(2) x zero ds e Cons
                  have "map_option ((#) (Lit (8 * (e - 48) + (f - 48)))) (parse_template (fs @ ?T)) = Some t"
                    by simp
                  then show ?thesis
                    by (rule lit [where p = "[Lit (8 * (e - 48) + (f - 48))]"])
                       (simp_all add: x ds Cons)
                next
                  case False
                  with 1(2) x zero ds e Cons
                  have "map_option ((#) (Lit (e - 48))) (parse_template ((f # fs) @ ?T)) = Some t"
                    by simp
                  then show ?thesis
                    by (rule lit [where p = "[Lit (e - 48)]"]) (simp_all add: x ds Cons)
                qed
              qed
            qed
          qed
        next
          case digit
          then have d: "d \<noteq> 103" by (auto simp: is_digit_def)
          show ?thesis
          proof (cases ds)
            case Nil
            with 1(2) x digit d show ?thesis by (simp add: is_octdigit_def)
          next
            case (Cons e es)
            note ds = Cons
            show ?thesis
            proof (cases es)
              case Nil
              with 1(2) x digit d ds show ?thesis by (simp add: is_octdigit_def)
            next
              case (Cons f fs)
              with 1(2) x digit d ds
              have "map_option ((#) (Lit (64 * (d - 48) + 8 * (e - 48) + (f - 48))))
                      (parse_template (fs @ ?T)) = Some t"
                by (simp split: if_splits)
              then show ?thesis
                by (rule lit [where p = "[Lit (64 * (d - 48) + 8 * (e - 48) + (f - 48))]"])
                   (simp_all add: x ds Cons)
            qed
          qed
        next
          case (esc v)
          then have "d \<noteq> 48" by (auto simp: is_digit_def)
          with 1(2) x esc
          have "map_option ((#) (Lit v)) (parse_template (ds @ ?T)) = Some t"
            by simp
          then show ?thesis by (rule lit [where p = "[Lit v]"]) (simp_all add: x)
        next
          case other
          then have "d \<noteq> 48" by (auto simp: is_digit_def)
          with 1(2) x other
          have "map_option (\<lambda>t. Lit 92 # Lit d # t) (parse_template (ds @ ?T)) = Some t"
            by (simp split: if_splits)
          then show ?thesis by (rule lit [where p = "[Lit 92, Lit d]"]) (simp_all add: x)
        qed
      qed
    qed
  qed
qed

lemma template_keeps_markers:
  assumes "parse_template (stats_section stats) = Some t"
  shows "contains start_marker (expand_template t m) \<and> contains end_marker (expand_template t m)"
proof -
  let ?lits = "start_marker @ [10] @ title_line @ [10, 10]"
  have sec: "stats_section stats = ?lits @ (stats @ 10 # 10 # end_marker)"
    by (simp add: stats_section_def)
  have "92 \<notin> set ?lits"
    by (simp add: marker_chars)
  from parse_template_Lit_append [OF this, of "stats @ 10 # 10 # end_marker"] assms
  obtain t' where t': "parse_template (stats @ 10 # 10 # end_marker) = Some t'"
    and t: "t = map Lit ?lits @ t'"
    unfolding sec by auto
  from parse_template_tail [OF t'] obtain t0 where "t' = t0 @ map Lit end_marker" ..
  with t have "expand_template t m
      = [] @ start_marker @ (([10] @ title_line @ [10, 10]) @ expand_template t0 m @ end_marker)"
    and "expand_template t m
      = (?lits @ expand_template t0 m) @ end_marker @ []"
    by (simp_all add: expand_template_append expand_template_literal)
  then show ?thesis
    by (metis contains_append_mid)
qed

lemmas eval_splice = splice_def re_sub_def stats_section_def title_line_def eval_defs
  sub_matches.simps

lemma default_document_no_arrow:
  "\<not> contains (ascii ''-->'') (ascii ''# GitHub Profile'' @ [10, 10])"
  by (simp add: eval_defs)

section \<open>The splicer: insertion when the markers are absent\<close>

text \<open>
  C1, as the code has it. For a document that holds neither marker and holds the
  delimiter \<open>-->\<close>, the section is inserted right after the LAST occurrence of the
  delimiter (\<open>rsplit\<close> with one split), a blank line between them; the text before
  and after the insertion point is kept as it is. The document is \<open>p0 @ "-->" @ p1\<close>
  with no delimiter in \<open>p1\<close>, and the result is \<open>p0 @ "-->" @ "\n\n" @ section @ p1\<close>.
\<close>

theorem insert_after_last_arrow:
  assumes "\<not> contains start_marker doc" and "\<not> contains end_marker doc"
    and "doc = p0 @ ascii ''-->'' @ p1" and "\<not> contains (ascii ''-->'') p1"
  shows "splice stats doc = Inr (p0 @ ascii ''-->'' @ [10, 10] @ stats_section stats @ p1)"
proof -
  have "contains (ascii ''-->'') doc"
    unfolding assms(3) by (rule contains_append_mid)
  moreover have "rsplit1 (ascii ''-->'') doc = [p0, p1]"
    unfolding assms(3) by (rule rsplit1_arrow [OF assms(4)])
  ultimately show ?thesis
    using assms(1) by (simp add: splice_def)
qed

theorem insert_after_last_arrow_witness:
  "\<not> contains start_marker (ascii ''x-->y-->z'')
   \<and> \<not> contains end_marker (ascii ''x-->y-->z'')
   \<and> ascii ''x-->y-->z'' = ascii ''x-->y'' @ ascii ''-->'' @ ascii ''z''
   \<and> \<not> contains (ascii ''-->'') (ascii ''z'')
   \<and> splice (ascii ''T'') (ascii ''x-->y-->z'')
       = Inr (ascii ''x-->y'' @ ascii ''-->'' @ [10, 10] @ stats_section (ascii ''T'') @ ascii ''z'')"
proof -
  have h1: "\<not> contains start_marker (ascii ''x-->y-->z'')" by (simp add: eval_defs)
  have h2: "\<not> contains end_marker (ascii ''x-->y-->z'')" by (simp add: eval_defs)
  have h3: "ascii ''x-->y-->z'' = ascii ''x-->y'' @ ascii ''-->'' @ ascii ''z''"
    by (simp add: ascii_def)
  have h4: "\<not> contains (ascii ''-->'') (ascii ''z'')" by (simp add: eval_defs)
  show ?thesis
    by (rule conjI h1 h2 h3 h4 insert_after_last_arrow [OF h1 h2 h3 h4])+
qed

text \<open>
  The claim as the spec states it (insertion after the FIRST delimiter) fails on a
  document with two delimiters: the first \<open>-->\<close> of \<open>a-->b-->c\<close> is at index 1, and
  the section goes behind the second one.
\<close>

theorem insert_after_first_arrow_counterexample:
  "\<not> contains start_marker (ascii ''a-->b-->c'')
   \<and> \<not> contains end_marker (ascii ''a-->b-->c'')
   \<and> find_str (ascii ''-->'') (ascii ''a-->b-->c'') = Some 1
   \<and> splice (ascii ''T'') (ascii ''a-->b-->c'')
       = Inr (ascii ''a-->b-->'' @ [10, 10] @ stats_section (ascii ''T'') @ ascii ''c'')
   \<and> splice (ascii ''T'') (ascii ''a-->b-->c'')
       \<noteq> Inr (ascii ''a-->'' @ [10, 10] @ stats_section (ascii ''T'') @ ascii ''b-->c'')"
  by (simp add: splice_def eval_defs stats_section_def)

section \<open>The splicer: replacement between the markers\<close>

text \<open>
  C8, as the code has it. Let the document be \<open>pre @ start_marker @ mid @ end_marker @ rest\<close>
  where \<open>pre\<close> holds no start marker and \<open>mid\<close> holds no end marker (the span runs from
  the first start marker to the first end marker behind it), and let the table text hold
  no backslash. Then the splicer puts the new section in the place of the span and keeps
  \<open>pre\<close> as it is; behind the span the substitution goes on (\<open>re.sub\<close> replaces every
  match), so \<open>rest\<close> is kept as it is when it holds no further start marker.
\<close>

theorem replace_marked_span:
  assumes "92 \<notin> set stats"
    and "doc = pre @ start_marker @ mid @ end_marker @ rest"
    and "\<not> contains start_marker pre" and "\<not> contains end_marker mid"
  shows "splice stats doc
           = Inr (pre @ stats_section stats @ sub_matches (\<lambda>_. stats_section stats) rest)
         \<and> (\<not> contains start_marker rest \<longrightarrow>
              splice stats doc = Inr (pre @ stats_section stats @ rest))"
proof -
  have "contains start_marker doc"
    unfolding assms(2) by (rule contains_append_mid)
  moreover have "doc = (pre @ start_marker @ mid) @ end_marker @ rest"
    by (simp add: assms(2))
  then have "contains end_marker doc"
    by (simp only: contains_append_mid)
  ultimately have "splice stats doc = Inr (sub_matches (\<lambda>_. stats_section stats) doc)"
    by (rule splice_both [OF assms(1)])
  also have "sub_matches (\<lambda>_. stats_section stats) doc
             = pre @ stats_section stats @ sub_matches (\<lambda>_. stats_section stats) rest"
    unfolding assms(2) by (rule sub_matches_span [OF assms(3,4)])
  finally show ?thesis
    by (simp add: sub_matches_no_start)
qed

theorem replace_marked_span_witness:
  "92 \<notin> set (ascii ''T'')
   \<and> \<not> contains start_marker (ascii ''a'')
   \<and> \<not> contains end_marker (ascii ''old'')
   \<and> \<not> contains start_marker (ascii ''b'')
   \<and> splice (ascii ''T'') (ascii ''a'' @ start_marker @ ascii ''old'' @ end_marker @ ascii ''b'')
       = Inr (ascii ''a'' @ stats_section (ascii ''T'') @ ascii ''b'')"
proof -
  have h1: "92 \<notin> set (ascii ''T'')" by (simp add: ascii_def)
  have h2: "\<not> contains start_marker (ascii ''a'')" by (simp add: eval_defs)
  have h3: "\<not> contains end_marker (ascii ''old'')" by (simp add: eval_defs)
  have h4: "\<not> contains start_marker (ascii ''b'')" by (simp add: eval_defs)
  from replace_marked_span [OF h1 refl h2 h3, of "ascii ''b''"] h4
  have "splice (ascii ''T'') (ascii ''a'' @ start_marker @ ascii ''old'' @ end_marker @ ascii ''b'')
       = Inr (ascii ''a'' @ stats_section (ascii ''T'') @ ascii ''b'')"
    by blast
  with h1 h2 h3 h4 show ?thesis by blast
qed

text \<open>
  The claim as the spec states it (only the first span is replaced, every character
  outside it is kept) fails on a document with two spans: both are replaced.
\<close>

theorem replace_first_span_only_counterexample:
  "find_str start_marker
     (start_marker @ ascii ''x'' @ end_marker @ ascii ''y'' @ start_marker @ ascii ''z'' @ end_marker)
     = Some 0
   \<and> find_str end_marker
       (drop 29 (start_marker @ ascii ''x'' @ end_marker @ ascii ''y'' @ start_marker @ ascii ''z'' @ end_marker))
     = Some 1
   \<and> splice (ascii ''T'')
       (start_marker @ ascii ''x'' @ end_marker @ ascii ''y'' @ start_marker @ ascii ''z'' @ end_marker)
     = Inr (stats_section (ascii ''T'') @ ascii ''y'' @ stats_section (ascii ''T''))
   \<and> splice (ascii ''T'')
       (start_marker @ ascii ''x'' @ end_marker @ ascii ''y'' @ start_marker @ ascii ''z'' @ end_marker)
     \<noteq> Inr (stats_section (ascii ''T'') @ ascii ''y'' @ start_marker @ ascii ''z'' @ end_marker)"
  by (simp add: eval_splice)

section \<open>The splicer: idempotence\<close>

text \<open>
  C7, as the code has it. Splicing twice with the same table text gives the document
  that splicing once gives, for every table text that holds neither a backslash nor the
  end marker and every document that holds the end marker whenever it holds the start
  marker.
\<close>

theorem splice_idempotent:
  assumes "92 \<notin> set stats" and "\<not> contains end_marker stats"
    and "contains start_marker doc \<longrightarrow> contains end_marker doc"
  shows "\<exists>d. splice stats doc = Inr d \<and> splice stats d = Inr d"
proof -
  let ?sec = "stats_section stats"
  let ?f = "\<lambda>_::pystr. ?sec"
  consider (both) "contains start_marker doc" "contains end_marker doc"
    | (arrow) "\<not> contains start_marker doc" "contains (ascii ''-->'') doc"
    | (plain) "\<not> contains (ascii ''-->'') doc"
    using assms(3) by blast
  then show ?thesis
  proof cases
    case both
    let ?d = "sub_matches ?f doc"
    have 1: "splice stats doc = Inr ?d"
      by (rule splice_both [OF assms(1) both])
    have "contains start_marker ?d \<and> contains end_marker ?d"
      using contains_section [of "[]" stats "[]"]
      by (intro sub_matches_keeps_markers both) simp
    then have "splice stats ?d = Inr (sub_matches ?f ?d)"
      using splice_both [OF assms(1)] by blast
    with 1 show ?thesis
      by (simp add: sub_matches_idem [OF assms(2)])
  next
    case arrow
    from last_arrow_split [OF arrow(2)] obtain p0 p1
      where doc: "doc = p0 @ ascii ''-->'' @ p1" and p1: "\<not> contains (ascii ''-->'') p1"
      by blast
    let ?pre = "(p0 @ ascii ''-->'') @ [10, 10]"
    let ?d = "?pre @ ?sec @ p1"
    have 1: "splice stats doc = Inr ?d"
      using splice_arrow [OF _ doc p1, of stats] arrow(1) by simp
    have "\<not> contains start_marker (p0 @ ascii ''-->'')"
      using arrow(1) unfolding doc
      by (metis append.assoc contains_iff_sublist sublist_appendR)
    then have pre: "\<not> contains start_marker ?pre"
      by (rule no_start_before_blank)
    have "splice stats ?d = Inr (sub_matches ?f ?d)"
      by (rule splice_both [OF assms(1) contains_section])
    also have "sub_matches ?f ?d = ?pre @ ?sec @ sub_matches ?f p1"
      by (rule sub_matches_section [OF assms(2) pre])
    also have "sub_matches ?f p1 = p1"
      by (rule sub_matches_no_start [OF no_arrow_no_marker(1) [OF p1]])
    finally show ?thesis using 1 by simp
  next
    case plain
    let ?pre = "doc @ [10, 10]"
    let ?d = "?pre @ ?sec @ []"
    have 1: "splice stats doc = Inr ?d"
      using splice_append [OF plain, of stats] by simp
    have pre: "\<not> contains start_marker ?pre"
      by (rule no_start_before_blank [OF no_arrow_no_marker(1) [OF plain]])
    have "splice stats ?d = Inr (sub_matches ?f ?d)"
      by (rule splice_both [OF assms(1) contains_section])
    also have "sub_matches ?f ?d = ?pre @ ?sec @ sub_matches ?f []"
      by (rule sub_matches_section [OF assms(2) pre])
    also have "sub_matches ?f [] = []"
      by (rule sub_matches_no_start) (simp add: contains_def start_marker_def ascii_def)
    finally show ?thesis using 1 by simp
  qed
qed

theorem splice_idempotent_witness:
  "92 \<notin> set (ascii ''T'')
   \<and> \<not> contains end_marker (ascii ''T'')
   \<and> \<not> contains start_marker (ascii ''intro'')
   \<and> (\<exists>d. splice (ascii ''T'') (ascii ''intro'') = Inr d \<and> splice (ascii ''T'') d = Inr d)"
proof -
  have h1: "92 \<notin> set (ascii ''T'')" by (simp add: ascii_def)
  have h2: "\<not> contains end_marker (ascii ''T'')" by (simp add: eval_defs)
  have h3: "\<not> contains start_marker (ascii ''intro'')" by (simp add: eval_defs)
  then have h3': "contains start_marker (ascii ''intro'') \<longrightarrow> contains end_marker (ascii ''intro'')"
    by simp
  from splice_idempotent [OF h1 h2 h3'] h1 h2 h3 show ?thesis by blast
qed

text \<open>
  The claim as the spec states it (every document, every table text) fails on the
  document that is a lone start marker: the first run puts the section behind it, the
  second run replaces the span from the lone marker to the end of that section.
\<close>

theorem splice_idempotent_counterexample:
  "splice (ascii ''T'') start_marker = Inr (start_marker @ [10, 10] @ stats_section (ascii ''T''))
   \<and> splice (ascii ''T'') (start_marker @ [10, 10] @ stats_section (ascii ''T''))
       = Inr (stats_section (ascii ''T''))
   \<and> start_marker @ [10, 10] @ stats_section (ascii ''T'') \<noteq> stats_section (ascii ''T'')"
  by (simp add: eval_splice)

section \<open>The splicer: both markers in every result\<close>

text \<open>
  C10. Whatever the document and the table text are, a document that the transformation
  of \<open>update_readme\<close> produces holds both marker literals. The transformation produces
  a document whenever the table text holds no backslash or the document lacks a marker;
  otherwise \<open>re.sub\<close> may reject the replacement text, and then nothing is produced.
\<close>

theorem splice_result_has_markers:
  "(\<forall>d. splice stats doc = Inr d \<longrightarrow> contains start_marker d \<and> contains end_marker d)
   \<and> (92 \<notin> set stats \<or> \<not> (contains start_marker doc \<and> contains end_marker doc)
        \<longrightarrow> (\<exists>d. splice stats doc = Inr d))"
proof -
  consider (both) "contains start_marker doc" "contains end_marker doc"
    | (arrow) "\<not> (contains start_marker doc \<and> contains end_marker doc)"
        "contains (ascii ''-->'') doc"
    | (plain) "\<not> contains (ascii ''-->'') doc"
    by blast
  then show ?thesis
  proof cases
    case both
    have 1: "contains start_marker d \<and> contains end_marker d" if "splice stats doc = Inr d" for d
    proof (cases "parse_template (stats_section stats)")
      case None
      with that both show ?thesis by (simp add: splice_def re_sub_def)
    next
      case (Some t)
      with that both have "d = sub_matches (expand_template t) doc"
        by (auto simp: splice_def re_sub_def)
      then show ?thesis
        using sub_matches_keeps_markers [OF both, of "expand_template t"]
          template_keeps_markers [OF Some] by simp
    qed
    have "\<exists>d. splice stats doc = Inr d" if "92 \<notin> set stats"
      using splice_both [OF that both] by blast
    with 1 both show ?thesis by blast
  next
    case arrow
    from last_arrow_split [OF arrow(2)] obtain p0 p1
      where doc: "doc = p0 @ ascii ''-->'' @ p1" and p1: "\<not> contains (ascii ''-->'') p1"
      by blast
    have "splice stats doc = Inr ((p0 @ ascii ''-->'' @ [10, 10]) @ stats_section stats @ p1)"
      using splice_arrow [OF arrow(1) doc p1, of stats] by simp
    then show ?thesis
      using contains_section [of "p0 @ ascii ''-->'' @ [10, 10]" stats p1] by auto
  next
    case plain
    have "splice stats doc = Inr ((doc @ [10, 10]) @ stats_section stats @ [])"
      using splice_append [OF plain, of stats] by simp
    then show ?thesis
      using contains_section [of "doc @ [10, 10]" stats "[]"] by auto
  qed
qed

theorem splice_result_has_markers_witness:
  "splice (ascii ''T'') (start_marker @ ascii ''old'' @ end_marker) = Inr (stats_section (ascii ''T''))
   \<and> contains start_marker (stats_section (ascii ''T''))
   \<and> contains end_marker (stats_section (ascii ''T''))
   \<and> 92 \<notin> set (ascii ''T'')"
proof -
  have e: "splice (ascii ''T'') (start_marker @ ascii ''old'' @ end_marker)
           = Inr (stats_section (ascii ''T''))"
    by (simp add: eval_splice)
  have n: "92 \<notin> set (ascii ''T'')" by (simp add: ascii_def)
  from splice_result_has_markers [of "ascii ''T''" "start_marker @ ascii ''old'' @ end_marker"] e
  have "contains start_marker (stats_section (ascii ''T''))
        \<and> contains end_marker (stats_section (ascii ''T''))"
    by blast
  with e n show ?thesis by blast
qed

section \<open>\<open>update_readme\<close>: a document that cannot be read\<close>

text \<open>
  C9, as the code has it. Only the failure \<open>FileNotFoundError\<close> is recovered: the
  function goes on with the default document \<open># GitHub Profile\<close> and two line feeds,
  and writes it with the section appended; it fails only when that write fails. Every
  other failure of the read leaves \<open>update_readme\<close>, and nothing is written.
\<close>

theorem missing_document_is_recovered:
  "(read_text fs path = Inl FileNotFoundError \<longrightarrow>
      update_readme stats path fs =
        (case write_error fs path
                (ascii ''# GitHub Profile'' @ [10, 10] @ [10, 10] @ stats_section stats) of
           None \<Rightarrow>
             Inr (fs\<lparr>read_text := (read_text fs)
                    (path := Inr (ascii ''# GitHub Profile'' @ [10, 10] @ [10, 10]
                                   @ stats_section stats))\<rparr>)
         | Some e \<Rightarrow> Inl (FileError e)))
   \<and> (read_text fs path = Inl e \<and> e \<noteq> FileNotFoundError \<longrightarrow>
        update_readme stats path fs = Inl (FileError e))"
proof (intro conjI impI)
  assume "read_text fs path = Inl FileNotFoundError"
  then show "update_readme stats path fs =
        (case write_error fs path
                (ascii ''# GitHub Profile'' @ [10, 10] @ [10, 10] @ stats_section stats) of
           None \<Rightarrow>
             Inr (fs\<lparr>read_text := (read_text fs)
                    (path := Inr (ascii ''# GitHub Profile'' @ [10, 10] @ [10, 10]
                                   @ stats_section stats))\<rparr>)
         | Some e \<Rightarrow> Inl (FileError e))"
    using splice_append [OF default_document_no_arrow, of stats]
    by (simp add: update_readme_def split: option.splits)
next
  assume "read_text fs path = Inl e \<and> e \<noteq> FileNotFoundError"
  then show "update_readme stats path fs = Inl (FileError e)"
    by (cases e) (simp_all add: update_readme_def)
qed

theorem missing_document_is_recovered_witness:
  "read_text \<lparr>read_text = \<lambda>p. Inl FileNotFoundError, write_error = \<lambda>p c. None\<rparr> (ascii ''README.md'')
     = Inl FileNotFoundError
   \<and> update_readme (ascii ''T'') (ascii ''README.md'')
        \<lparr>read_text = \<lambda>p. Inl FileNotFoundError, write_error = \<lambda>p c. None\<rparr>
     = Inr \<lparr>read_text = (\<lambda>p. Inl FileNotFoundError)
               (ascii ''README.md'' := Inr (ascii ''# GitHub Profile'' @ [10, 10] @ [10, 10]
                                             @ stats_section (ascii ''T''))),
            write_error = \<lambda>p c. None\<rparr>
   \<and> read_text \<lparr>read_text = \<lambda>p. Inl PermissionError, write_error = \<lambda>p c. None\<rparr> (ascii ''README.md'')
     = Inl PermissionError
   \<and> PermissionError \<noteq> FileNotFoundError
   \<and> update_readme (ascii ''T'') (ascii ''README.md'')
        \<lparr>read_text = \<lambda>p. Inl PermissionError, write_error = \<lambda>p c. None\<rparr>
     = Inl (FileError PermissionError)"
  using missing_document_is_recovered
          [where fs = "\<lparr>read_text = \<lambda>p. Inl FileNotFoundError, write_error = \<lambda>p c. None\<rparr>"
             and path = "ascii ''README.md''" and stats = "ascii ''T''"]
        missing_document_is_recovered
          [where fs = "\<lparr>read_text = \<lambda>p. Inl PermissionError, write_error = \<lambda>p c. None\<rparr>"
             and path = "ascii ''README.md''" and stats = "ascii ''T''" and e = PermissionError]
  by simp

text \<open>
  The claim as the spec states it (no failure of the read is fatal) fails when the read
  is refused for lack of permission.
\<close>

theorem read_failure_is_fatal_counterexample:
  "read_text \<lparr>read_text = \<lambda>p. Inl PermissionError, write_error = \<lambda>p c. None\<rparr> (ascii ''README.md'')
     = Inl PermissionError
   \<and> update_readme (ascii ''T'') (ascii ''README.md'')
        \<lparr>read_text = \<lambda>p. Inl PermissionError, write_error = \<lambda>p c. None\<rparr>
     = Inl (FileError PermissionError)"
  by (simp add: update_readme_def)

section \<open>The aggregator\<close>

lemma bytes_of_add_bytes:
  "bytes_of (add_bytes m l n) lang = bytes_of m lang + (if l = lang then n else 0)"
  by (induction m l n rule: add_bytes.induct) (auto simp: bytes_of_def)

lemma bytes_of_foldl_add_bytes:
  "bytes_of (foldl (\<lambda>m (l, n). add_bytes m l n) m languages) lang
   = bytes_of m lang + reported languages lang"
proof (induction languages arbitrary: m)
  case Nil
  show ?case by (simp add: reported_def)
next
  case (Cons x xs)
  obtain l n where x: "x = (l, n)" by (cases x)
  have "reported (x # xs) lang = (if l = lang then n else 0) + reported xs lang"
    by (simp add: reported_def x)
  with Cons [of "add_bytes m l n"] show ?case
    by (simp add: x bytes_of_add_bytes)
qed

lemma aggregate_filter:
  "aggregate get repos m = aggregate get (filter (qualifies get) repos) m"
  by (induction get repos m rule: aggregate.induct)
     (auto simp: qualifies_def split: prod.splits)

lemma bytes_of_aggregate:
  "bytes_of (aggregate get repos m) lang
   = bytes_of m lang
     + (\<Sum>r\<leftarrow>filter (qualifies get) repos. reported (snd (get (languages_url r))) lang)"
proof (induction get repos m rule: aggregate.induct)
  case (1 get language_bytes)
  show ?case by simp
next
  case (2 get repo repos language_bytes)
  show ?case
  proof (cases "qualifies get repo")
    case True
    then obtain languages where g: "get (languages_url repo) = (200, languages)"
      and nf: "\<not> fork repo"
      by (cases "get (languages_url repo)") (auto simp: qualifies_def)
    from 2(2) [OF nf g [symmetric] refl] True g nf show ?thesis
      by (simp add: bytes_of_foldl_add_bytes)
  next
    case False
    show ?thesis
    proof (cases "fork repo")
      case True
      with 2(1) False show ?thesis by simp
    next
      case nf: False
      obtain st languages where g: "get (languages_url repo) = (st, languages)"
        by (cases "get (languages_url repo)")
      with False nf have "st \<noteq> 200" by (simp add: qualifies_def)
      with 2(3) [OF nf g [symmetric]] False nf g show ?thesis by simp
    qed
  qed
qed

lemma aggregate_none_qualifies:
  "\<forall>r\<in>set repos. \<not> qualifies get r \<Longrightarrow> aggregate get repos m = m"
  by (subst aggregate_filter) (simp add: filter_False)

text \<open>
  C6. For every repository sequence the loop of \<open>get_language_stats\<close> gives what it
  gives on the repositories that are no fork and whose language request answers 200: a
  fork and a repository whose request fails add nothing, whatever their language data
  are. The byte count of a language in the result is the sum of what these repositories
  report for it. When no repository qualifies the mapping is empty. The loop has no
  failing path: once the listing has ended, the function returns the mapping.
\<close>

theorem aggregate_skips_forks_and_failures:
  "aggregate get repos m = aggregate get (filter (qualifies get) repos) m
   \<and> bytes_of (aggregate get repos []) lang
       = (\<Sum>r\<leftarrow>filter (qualifies get) repos. reported (snd (get (languages_url r))) lang)
   \<and> ((\<forall>r\<in>set repos. \<not> qualifies get r) \<longrightarrow> aggregate get repos [] = [])
   \<and> (fetch_repos (get_repos h) 1 [] = Some (Some repos) \<longrightarrow>
        get_language_stats h = Some (Some (aggregate (get_languages h) repos [])))"
  using aggregate_filter [of get repos m] bytes_of_aggregate [of get repos "[]" lang]
    aggregate_none_qualifies [of repos get "[]"]
  by (simp add: get_language_stats_def bytes_of_def)

theorem aggregate_skips_forks_and_failures_witness:
  "\<not> qualifies (\<lambda>u. if u = ascii ''a'' then (200, [(ascii ''C'', 1000)]) else (404, [(ascii ''C'', 7)]))
       \<lparr>fork = True, languages_url = ascii ''a''\<rparr>
   \<and> \<not> qualifies (\<lambda>u. if u = ascii ''a'' then (200, [(ascii ''C'', 1000)]) else (404, [(ascii ''C'', 7)]))
       \<lparr>fork = False, languages_url = ascii ''b''\<rparr>
   \<and> aggregate (\<lambda>u. if u = ascii ''a'' then (200, [(ascii ''C'', 1000)]) else (404, [(ascii ''C'', 7)]))
       [\<lparr>fork = True, languages_url = ascii ''a''\<rparr>, \<lparr>fork = False, languages_url = ascii ''b''\<rparr>] []
     = []
   \<and> fetch_repos
       (\<lambda>page. if page = 1
               then (200, [\<lparr>fork = True, languages_url = ascii ''a''\<rparr>,
                           \<lparr>fork = False, languages_url = ascii ''b''\<rparr>])
               else (200, [])) 1 []
     = Some (Some [\<lparr>fork = True, languages_url = ascii ''a''\<rparr>,
                    \<lparr>fork = False, languages_url = ascii ''b''\<rparr>])
   \<and> get_language_stats
       \<lparr>get_repos = (\<lambda>page. if page = 1
               then (200, [\<lparr>fork = True, languages_url = ascii ''a''\<rparr>,
                           \<lparr>fork = False, languages_url = ascii ''b''\<rparr>])
               else (200, [])),
        get_languages = (\<lambda>u. if u = ascii ''a'' then (200, [(ascii ''C'', 1000)])
                              else (404, [(ascii ''C'', 7)]))\<rparr>
     = Some (Some [])
   \<and> qualifies (\<lambda>u. if u = ascii ''a'' then (200, [(ascii ''C'', 1000)]) else (404, [(ascii ''C'', 7)]))
       \<lparr>fork = False, languages_url = ascii ''a''\<rparr>
   \<and> bytes_of
       (aggregate (\<lambda>u. if u = ascii ''a'' then (200, [(ascii ''C'', 1000)]) else (404, [(ascii ''C'', 7)]))
          [\<lparr>fork = True, languages_url = ascii ''a''\<rparr>, \<lparr>fork = False, languages_url = ascii ''b''\<rparr>,
           \<lparr>fork = False, languages_url = ascii ''a''\<rparr>] [])
       (ascii ''C'')
     = 1000"
proof -
  let ?g = "\<lambda>u. if u = ascii ''a'' then (200::nat, [(ascii ''C'', 1000::int)])
                 else (404, [(ascii ''C'', 7)])"
  let ?r1 = "\<lparr>fork = True, languages_url = ascii ''a''\<rparr>"
  let ?r2 = "\<lparr>fork = False, languages_url = ascii ''b''\<rparr>"
  let ?p = "\<lambda>page::nat. if page = 1 then (200::nat, [?r1, ?r2]) else (200, [])"
  let ?h = "\<lparr>get_repos = ?p, get_languages = ?g\<rparr>"
  have q1: "\<not> qualifies ?g ?r1" by (simp add: qualifies_def)
  have q2: "\<not> qualifies ?g ?r2" by (simp add: qualifies_def ascii_def)
  have q: "\<forall>r\<in>set [?r1, ?r2]. \<not> qualifies ?g r" using q1 q2 by simp
  have f: "fetch_repos ?p 1 [] = Some (Some [?r1, ?r2])"
    apply (subst fetch_repos.simps)
    apply simp
    apply (subst fetch_repos.simps)
    apply simp
    done
  note t = aggregate_skips_forks_and_failures [where get = ?g and repos = "[?r1, ?r2]" and h = ?h]
  from t q have a: "aggregate ?g [?r1, ?r2] [] = []" by blast
  from t f have "get_language_stats ?h = Some (Some (aggregate ?g [?r1, ?r2] []))" by simp
  with a have g: "get_language_stats ?h = Some (Some [])" by simp
  let ?r3 = "\<lparr>fork = False, languages_url = ascii ''a''\<rparr>"
  have q3: "qualifies ?g ?r3" by (simp add: qualifies_def)
  have "bytes_of (aggregate ?g [?r1, ?r2, ?r3] []) (ascii ''C'')
        = (\<Sum>r\<leftarrow>filter (qualifies ?g) [?r1, ?r2, ?r3].
             reported (snd (?g (languages_url r))) (ascii ''C''))"
    using aggregate_skips_forks_and_failures
            [where get = ?g and repos = "[?r1, ?r2, ?r3]" and lang = "ascii ''C''"]
    by blast
  also have "\<dots> = 1000"
    using q1 q2 q3 by (simp add: reported_def)
  finally have b: "bytes_of (aggregate ?g [?r1, ?r2, ?r3] []) (ascii ''C'') = 1000" .
  show ?thesis by (rule conjI q1 q2 a f g q3 b)+
qed

section \<open>Facts about the binary64 arithmetic\<close>

subsection \<open>Floors of quotients of numerals, and rounding to an integer\<close>

lemma floor_rat_divide_numeral:
  "\<lfloor>numeral a / numeral b :: rat\<rfloor> = numeral a div numeral b"
  using floor_divide_of_int_eq [of "numeral a" "numeral b", where ?'a = rat] by simp

lemma ceiling_rat_divide_numeral:
  "\<lceil>numeral a / numeral b :: rat\<rceil> = - (- numeral a div numeral b)"
  using floor_divide_of_int_eq [of "- numeral a" "numeral b", where ?'a = rat]
  by (simp add: ceiling_def)


lemma round_half_even_error: "\<bar>of_int (round_half_even y) - y\<bar> \<le> 1 / 2"
proof -
  have "of_int \<lfloor>y\<rfloor> \<le> y" "y < of_int \<lfloor>y\<rfloor> + 1" by linarith+
  then show ?thesis by (auto simp: round_half_even_def)
qed

lemma round_half_even_nonneg: "0 \<le> y \<Longrightarrow> 0 \<le> round_half_even y"
  by (auto simp: round_half_even_def)

subsection \<open>Powers of two and bit lengths\<close>

lemma pow2_powi: "pow2 k = 2 powi k"
  by (simp add: pow2_def power_int_def field_simps)

lemma pow2_pos: "0 < pow2 k"
  by (simp add: pow2_powi)

lemma pow2_add: "pow2 (a + b) = pow2 a * pow2 b"
  by (simp add: pow2_powi power_int_add)

lemma pow2_diff: "pow2 (a - b) = pow2 a / pow2 b"
  by (simp add: pow2_powi power_int_diff)

lemma pow2_mono: "a \<le> b \<Longrightarrow> pow2 a \<le> pow2 b"
  by (simp add: pow2_powi power_int_increasing)

lemma pow2_strict_mono: "a < b \<Longrightarrow> pow2 a < pow2 b"
  by (simp add: pow2_powi power_int_strict_increasing)

lemma pow2_less_cancel: "pow2 a < pow2 b \<Longrightarrow> a < b"
  using pow2_mono [of b a] by (cases "a < b") auto

lemma pow2_nat: "0 \<le> k \<Longrightarrow> pow2 k = of_int (2 ^ nat k)"
  by (simp add: pow2_def)

lemma bit_length_bounds:
  "0 < n \<Longrightarrow> 2 ^ (bit_length n - 1) \<le> n \<and> n < 2 ^ bit_length n"
proof (induction n rule: bit_length.induct)
  case (1 n)
  show ?case
  proof (cases "n div 2 = 0")
    case True
    with 1(2) have "n = 1" by presburger
    then show ?thesis by (simp add: bit_length.simps)
  next
    case False
    with 1 have IH: "2 ^ (bit_length (n div 2) - 1) \<le> n div 2" "n div 2 < 2 ^ bit_length (n div 2)"
      by simp_all
    from False have pos: "0 < bit_length (n div 2)"
      by (subst bit_length.simps) simp
    have bl: "bit_length n = Suc (bit_length (n div 2))"
      using 1(2) by (subst bit_length.simps) simp
    from pos have "(2::nat) ^ bit_length (n div 2) = 2 * 2 ^ (bit_length (n div 2) - 1)"
      by (cases "bit_length (n div 2)") simp_all
    with IH(1) have "2 ^ bit_length (n div 2) \<le> n" by presburger
    moreover from IH(2) have "n < 2 * 2 ^ bit_length (n div 2)" by presburger
    ultimately show ?thesis by (simp add: bl)
  qed
qed

lemma bit_length_pos: "0 < n \<Longrightarrow> 0 < bit_length n"
  by (subst bit_length.simps) simp

lemma floor_log2_bounds:
  assumes "0 < y"
  shows "pow2 (floor_log2 y) \<le> y" and "y < pow2 (floor_log2 y + 1)"
proof -
  show "pow2 (floor_log2 y) \<le> y" "y < pow2 (floor_log2 y + 1)"
  proof (atomize (full), cases "1 \<le> y")
    case True
    let ?n = "nat \<lfloor>y\<rfloor>"
    from True have n: "0 < ?n" by simp
    from bit_length_bounds [OF n]
    have lo: "2 ^ (bit_length ?n - 1) \<le> ?n" and hi: "?n < 2 ^ bit_length ?n" by simp_all
    from n have blpos: "0 < bit_length ?n"
      by (rule bit_length_pos)
    have e: "floor_log2 y = int (bit_length ?n - 1)"
      using True blpos by (simp add: floor_log2_def)
    have "(of_nat (2 ^ (bit_length ?n - 1)) :: rat) \<le> of_nat ?n"
      using lo by (simp only: of_nat_le_iff)
    also have "(of_nat ?n :: rat) \<le> y" using True by simp
    finally have 1: "pow2 (floor_log2 y) \<le> y"
      by (simp add: e pow2_def)
    have "y < of_int \<lfloor>y\<rfloor> + 1" by linarith
    also have "of_int \<lfloor>y\<rfloor> + 1 = (of_nat (Suc ?n) :: rat)" using True by simp
    also have "(of_nat (Suc ?n) :: rat) \<le> of_nat (2 ^ bit_length ?n)"
      using hi by (simp only: of_nat_le_iff Suc_le_eq)
    finally have 2: "y < pow2 (floor_log2 y + 1)"
      using blpos by (simp add: e pow2_def)
    from 1 2 show "pow2 (floor_log2 y) \<le> y \<and> y < pow2 (floor_log2 y + 1)" ..
  next
    case False
    let ?m = "nat \<lceil>1 / y\<rceil>"
    let ?c = "bit_length (?m - 1)"
    from False assms have z: "1 < 1 / y" by simp
    then have m2: "2 \<le> \<lceil>1 / y\<rceil>" by linarith
    then have m1: "0 < ?m - 1" by linarith
    from bit_length_bounds [OF m1]
    have lo: "2 ^ (?c - 1) \<le> ?m - 1" and hi: "?m - 1 < 2 ^ ?c" by simp_all
    from m1 have cpos: "0 < ?c" by (rule bit_length_pos)
    have e: "floor_log2 y = - int ?c" using False by (simp add: floor_log2_def)
    have "1 / y \<le> of_int \<lceil>1 / y\<rceil>" by linarith
    also have "of_int \<lceil>1 / y\<rceil> = (of_nat ?m :: rat)" using m2 by simp
    also have "(of_nat ?m :: rat) \<le> of_nat (2 ^ ?c)"
    proof -
      from hi have "?m \<le> 2 ^ ?c" by linarith
      then show ?thesis by (simp only: of_nat_le_iff)
    qed
    finally have "1 / y \<le> 2 ^ ?c" by simp
    then have "1 / 2 ^ ?c \<le> y" using assms by (simp add: field_simps)
    then have 1: "pow2 (floor_log2 y) \<le> y"
      using cpos by (simp add: e pow2_def)
    have "(of_nat (2 ^ (?c - 1)) :: rat) \<le> of_nat (?m - 1)"
      using lo by (simp only: of_nat_le_iff)
    also have "(of_nat (?m - 1) :: rat) = of_int \<lceil>1 / y\<rceil> - 1"
    proof -
      from m2 have "int (?m - 1) = \<lceil>1 / y\<rceil> - 1" by arith
      then have "(of_int (int (?m - 1)) :: rat) = of_int (\<lceil>1 / y\<rceil> - 1)" by (rule arg_cong)
      then show ?thesis by (simp only: of_int_of_nat_eq of_int_diff of_int_1)
    qed
    also have "of_int \<lceil>1 / y\<rceil> - 1 < 1 / y" by linarith
    finally have "2 ^ (?c - 1) < 1 / y" by simp
    then have "y < 1 / 2 ^ (?c - 1)" using assms by (simp add: field_simps)
    moreover have "pow2 (- int ?c + 1) = 1 / 2 ^ (?c - 1)"
      using cpos by (cases ?c) (simp_all add: pow2_def)
    ultimately have 2: "y < pow2 (floor_log2 y + 1)" by (simp add: e)
    from 1 2 show "pow2 (floor_log2 y) \<le> y \<and> y < pow2 (floor_log2 y + 1)" ..
  qed
qed

subsection \<open>Rounding to a float\<close>

lemma round_half_even_of_int: "round_half_even (of_int z) = z"
  by (simp add: round_half_even_def)

lemma round_half_even_le:
  assumes "y \<le> of_int z"
  shows "round_half_even y \<le> z"
proof (cases "\<lfloor>y\<rfloor> = z")
  case True
  have "of_int \<lfloor>y\<rfloor> \<le> y" by linarith
  with assms True have "y = of_int z" by simp
  then show ?thesis by (simp add: round_half_even_of_int)
next
  case False
  from assms have "\<lfloor>y\<rfloor> \<le> z" by (simp add: floor_le_iff)
  with False have "\<lfloor>y\<rfloor> + 1 \<le> z" by simp
  then show ?thesis by (auto simp: round_half_even_def)
qed

lemma round_mag_le_pow2:
  assumes "0 < y" and "y \<le> pow2 k" and "- 1074 \<le> k"
  shows "round_mag y \<le> pow2 k"
proof -
  let ?q = "max (floor_log2 y - 52) (- 1074)"
  from floor_log2_bounds(1) [OF assms(1)] assms(2) have "pow2 (floor_log2 y) \<le> pow2 k" by simp
  then have "floor_log2 y \<le> k"
    using pow2_strict_mono [of k "floor_log2 y"] by (cases "floor_log2 y \<le> k") auto
  with assms(3) have qk: "?q \<le> k" by simp
  have "y / pow2 ?q \<le> pow2 k / pow2 ?q"
    using assms(2) pow2_pos [of ?q] by (simp add: divide_right_mono)
  also have "pow2 k / pow2 ?q = pow2 (k - ?q)" by (simp only: pow2_diff)
  also have "\<dots> = of_int (2 ^ nat (k - ?q))" using qk by (intro pow2_nat) simp
  finally have "round_half_even (y / pow2 ?q) \<le> 2 ^ nat (k - ?q)"
    by (rule round_half_even_le)
  then have "(of_int (round_half_even (y / pow2 ?q)) :: rat) \<le> of_int (2 ^ nat (k - ?q))"
    by (simp only: of_int_le_iff)
  also have "(of_int (2 ^ nat (k - ?q)) :: rat) = pow2 (k - ?q)"
    using qk by (intro pow2_nat [symmetric]) simp
  finally have "of_int (round_half_even (y / pow2 ?q)) * pow2 ?q \<le> pow2 (k - ?q) * pow2 ?q"
    using pow2_pos [of ?q] by (simp add: mult_right_mono)
  also have "pow2 (k - ?q) * pow2 ?q = pow2 k"
    by (simp add: pow2_add [symmetric])
  finally show ?thesis by (simp add: round_mag_def)
qed



subsection \<open>The division of two integers\<close>

lemma truediv_fraction:
  assumes "0 \<le> a" and "a \<le> b" and "0 < b"
  shows "\<exists>f. truediv a b = Inr f"
proof (cases "a = 0")
  case True
  with assms(3) show ?thesis by (simp add: truediv_def)
next
  case False
  let ?y = "of_int a / of_int b :: rat"
  from False assms have y: "0 < ?y" "?y \<le> 1" by simp_all
  from round_mag_le_pow2 [of ?y 0] y have rm: "round_mag ?y \<le> 1" by (simp add: pow2_def)
  have big: "(1::rat) < 2 ^ 1024" by (rule one_less_power) simp_all
  have ab: "\<bar>?y\<bar> = ?y" using y(1) by (rule abs_of_pos)
  from rm big have "round_mag ?y < 2 ^ 1024" by (rule le_less_trans)
  then have "\<not> 2 ^ 1024 \<le> round_mag \<bar>?y\<bar>" unfolding ab by (simp only: not_le)
  then have "round_double ?y \<noteq> PosInf" "round_double ?y \<noteq> NegInf"
    using y(1) unfolding round_double_def by (simp_all only: if_False) (auto split: if_splits)
  with False assms(3) show ?thesis
    by (cases "round_double ?y") (simp_all add: truediv_def)
qed


subsection \<open>The error of the rounding\<close>

lemma floor_log2_less:
  assumes "0 < y" and "y < pow2 k"
  shows "floor_log2 y < k"
proof -
  from floor_log2_bounds(1) [OF assms(1)] assms(2) have "pow2 (floor_log2 y) < pow2 k"
    by (rule le_less_trans)
  then show ?thesis by (rule pow2_less_cancel)
qed

lemma round_mag_nonneg:
  assumes "0 \<le> y"
  shows "0 \<le> round_mag y"
proof -
  let ?q = "max (floor_log2 y - 52) (- 1074)"
  have "0 \<le> y / pow2 ?q" using assms pow2_pos [of ?q] by simp
  then have "0 \<le> round_half_even (y / pow2 ?q)" by (rule round_half_even_nonneg)
  then have "(0 :: rat) \<le> of_int (round_half_even (y / pow2 ?q))" by simp
  then show ?thesis
    unfolding round_mag_def using pow2_pos [of ?q] by (intro mult_nonneg_nonneg) simp_all
qed

lemma round_mag_error:
  "\<bar>round_mag y - y\<bar> \<le> pow2 (max (floor_log2 y - 52) (- 1074)) / 2"
proof -
  let ?u = "pow2 (max (floor_log2 y - 52) (- 1074))"
  have u: "0 < ?u" by (rule pow2_pos)
  have "round_mag y - y = (of_int (round_half_even (y / ?u)) - y / ?u) * ?u"
    using u by (simp add: round_mag_def field_simps)
  then have "\<bar>round_mag y - y\<bar> = \<bar>(of_int (round_half_even (y / ?u)) - y / ?u) * ?u\<bar>"
    by (rule arg_cong)
  also have "\<dots> = \<bar>of_int (round_half_even (y / ?u)) - y / ?u\<bar> * \<bar>?u\<bar>"
    by (rule abs_mult)
  also have "\<bar>?u\<bar> = ?u" using u by (rule abs_of_pos)
  also have "\<bar>of_int (round_half_even (y / ?u)) - y / ?u\<bar> * ?u \<le> 1 / 2 * ?u"
    using round_half_even_error [of "y / ?u"] u by (intro mult_right_mono) simp_all
  finally show ?thesis by simp
qed

lemma round_mag_error_below:
  assumes "0 < y" and "y < pow2 (k + 1)" and "- 1022 \<le> k"
  shows "\<bar>round_mag y - y\<bar> \<le> pow2 (k - 53)"
proof -
  from floor_log2_less [OF assms(1,2)] have "floor_log2 y \<le> k" by simp
  with assms(3) have "max (floor_log2 y - 52) (- 1074) \<le> k - 52" by simp
  then have "pow2 (max (floor_log2 y - 52) (- 1074)) \<le> pow2 (k - 52)" by (rule pow2_mono)
  moreover have "pow2 (k - 52) = pow2 (k - 53) * 2"
    using pow2_add [of "k - 53" 1] by (simp add: pow2_def)
  ultimately have "pow2 (max (floor_log2 y - 52) (- 1074)) / 2 \<le> pow2 (k - 53)" by simp
  with round_mag_error [of y] show ?thesis by (rule order_trans)
qed

lemma round_mag_le_int:
  assumes "0 < y" and "y \<le> of_int c" and "y < pow2 53"
  shows "round_mag y \<le> of_int c"
proof -
  let ?q = "max (floor_log2 y - 52) (- 1074)"
  from floor_log2_less [OF assms(1,3)] have q: "?q \<le> 0" by simp
  have u: "0 < pow2 ?q" by (rule pow2_pos)
  have inv: "1 / pow2 ?q = of_int (2 ^ nat (- ?q))"
  proof -
    have "1 / pow2 ?q = pow2 (0 - ?q)" by (simp only: pow2_diff) (simp add: pow2_def)
    also have "\<dots> = of_int (2 ^ nat (0 - ?q))" using q by (intro pow2_nat) simp
    finally show ?thesis by simp
  qed
  have "y / pow2 ?q \<le> of_int c / pow2 ?q"
    using assms(2) u by (simp add: divide_right_mono)
  also have "of_int c / pow2 ?q = of_int c * (1 / pow2 ?q)" by simp
  also have "\<dots> = of_int (c * 2 ^ nat (- ?q))" by (simp only: inv of_int_mult)
  finally have "round_half_even (y / pow2 ?q) \<le> c * 2 ^ nat (- ?q)"
    by (rule round_half_even_le)
  then have "(of_int (round_half_even (y / pow2 ?q)) :: rat) \<le> of_int (c * 2 ^ nat (- ?q))"
    by (simp only: of_int_le_iff)
  also have "(of_int (c * 2 ^ nat (- ?q)) :: rat) = of_int c * (1 / pow2 ?q)"
    by (simp only: inv of_int_mult)
  finally have "of_int (round_half_even (y / pow2 ?q)) * pow2 ?q \<le> of_int c * (1 / pow2 ?q) * pow2 ?q"
    using u by (intro mult_right_mono) simp_all
  also have "of_int c * (1 / pow2 ?q) * pow2 ?q = of_int c" using u by simp
  finally show ?thesis by (simp add: round_mag_def)
qed

lemma round_double_pos:
  assumes "0 < y" and "round_mag y < 2 ^ 1024"
  shows "round_double y = Finite (round_mag y)"
proof -
  have ab: "\<bar>y\<bar> = y" using assms(1) by (rule abs_of_pos)
  have a: "y \<noteq> 0" "\<not> y < 0" using assms(1) by simp_all
  have b: "\<not> 2 ^ 1024 \<le> round_mag y" using assms(2) by (simp only: not_le)
  show ?thesis
  proof (cases "round_mag y = 0")
    case True
    have c: "\<not> (2 :: rat) ^ 1024 \<le> 0" by (simp only: not_le zero_less_power zero_less_numeral)
    show ?thesis unfolding round_double_def ab True by (simp only: a c if_False if_True refl)
  next
    case False
    show ?thesis unfolding round_double_def ab by (simp only: a b False if_False)
  qed
qed

lemma small_is_finite:
  assumes "y \<le> 128"
  shows "y < (2 :: rat) ^ 1024"
proof -
  have "(128 :: rat) = 2 ^ 7" by simp
  also have "(2 :: rat) ^ 7 < 2 ^ 1024" by (rule power_strict_increasing) simp_all
  finally show ?thesis using assms by (rule le_less_trans [rotated])
qed

lemma percentage_value:
  assumes "0 \<le> a" and "a \<le> b" and "0 < b"
  shows "\<exists>p. percentage a b = Inr (Finite p) \<and> 0 \<le> p \<and> p \<le> 100
           \<and> \<bar>p - of_int a / of_int b * 100\<bar> \<le> 1 / 2 ^ 45"
proof (cases "a = 0")
  case True
  with assms(3) have "percentage a b = Inr (Finite 0)"
    by (simp add: percentage_def truediv_def times_100_def round_double_def)
  with True show ?thesis by simp
next
  case False
  let ?y = "of_int a / of_int b :: rat"
  let ?r = "round_mag ?y"
  from False assms have y: "0 < ?y" "?y \<le> 1" by simp_all
  have p1: "pow2 1 = 2" and p0: "pow2 0 = 1" and p7: "pow2 7 = 128"
    by (simp_all add: pow2_def)
  from round_mag_le_pow2 [of ?y 0] y have r1: "?r \<le> 1" by (simp add: p0)
  from y(1) have r0: "0 \<le> ?r" by (intro round_mag_nonneg) simp
  from r1 have "?r \<le> 128" by simp
  then have "?r < 2 ^ 1024" by (rule small_is_finite)
  with y(1) have "round_double ?y = Finite ?r" by (rule round_double_pos)
  with False assms(3) have q: "truediv a b = Inr (Finite ?r)" by (simp add: truediv_def)
  from y(2) have "?y < pow2 (0 + 1)" by (simp add: p1)
  from round_mag_error_below [OF y(1) this] have e1: "\<bar>?r - ?y\<bar> \<le> pow2 (- 53)" by simp
  show ?thesis
  proof (cases "?r = 0")
    case True
    then have "percentage a b = Inr (Finite 0)"
      by (simp add: percentage_def q times_100_def round_double_def)
    moreover from e1 True have "\<bar>0 - ?y * 100\<bar> \<le> 1 / 2 ^ 45"
      by (simp add: pow2_def)
    ultimately show ?thesis by simp
  next
    case False
    let ?z = "?r * 100"
    let ?p = "round_mag ?z"
    from False r0 r1 have z: "0 < ?z" "?z \<le> 100" by simp_all
    from z(1) have p0: "0 \<le> ?p" by (intro round_mag_nonneg) simp
    have "?z < pow2 53"
    proof -
      have "(128 :: rat) = 2 ^ 7" by simp
      also have "(2 :: rat) ^ 7 < 2 ^ 53" by (rule power_strict_increasing) simp_all
      finally have "?z < 2 ^ 53" using z(2) by simp
      then show ?thesis by (simp add: pow2_def)
    qed
    with z have "?p \<le> of_int 100" by (intro round_mag_le_int) simp_all
    then have p100: "?p \<le> 100" by simp
    then have "?p \<le> 128" by simp
    then have "?p < 2 ^ 1024" by (rule small_is_finite)
    with z(1) have "round_double ?z = Finite ?p" by (rule round_double_pos)
    then have res: "percentage a b = Inr (Finite ?p)"
      by (simp add: percentage_def q times_100_def)
    from z(2) have "?z < pow2 (6 + 1)" by (simp add: p7)
    from round_mag_error_below [OF z(1) this] have e2: "\<bar>?p - ?z\<bar> \<le> pow2 (- 47)" by simp
    have "?p - ?y * 100 = (?p - ?z) + (?r - ?y) * 100" by (simp add: algebra_simps)
    then have "\<bar>?p - ?y * 100\<bar> = \<bar>(?p - ?z) + (?r - ?y) * 100\<bar>" by (rule arg_cong)
    also have "\<dots> \<le> \<bar>?p - ?z\<bar> + \<bar>(?r - ?y) * 100\<bar>" by (rule abs_triangle_ineq)
    also have "\<bar>(?r - ?y) * 100\<bar> = \<bar>?r - ?y\<bar> * 100" by (simp only: abs_mult abs_numeral)
    also have "\<bar>?p - ?z\<bar> + \<bar>?r - ?y\<bar> * 100 \<le> pow2 (- 47) + pow2 (- 53) * 100"
      using e1 e2 by (intro add_mono mult_right_mono) simp_all
    also have "\<dots> \<le> 1 / 2 ^ 45" by (simp add: pow2_def)
    finally have "\<bar>?p - ?y * 100\<bar> \<le> 1 / 2 ^ 45" by simp
    with res p0 p100 show ?thesis by blast
  qed
qed

subsection \<open>Overflow, and the relative error\<close>








text \<open>The equations that evaluate the arithmetic on numerals.\<close>

lemmas eval_f64 = truediv_def round_double_def round_mag_def floor_log2_def pow2_def
  bit_length.simps round_half_even_def times_100_def percentage_def
  floor_rat_divide_numeral ceiling_rat_divide_numeral


section \<open>The ranking\<close>

lemma sum_list_rev_sort_key:
  fixes f :: "'a \<Rightarrow> rat"
  shows "sum_list (map f (rev (sort_key k (rev xs)))) = sum_list (map f xs)"
proof -
  have "mset (map f (rev (sort_key k (rev xs)))) = mset (map f xs)" by simp
  then have "sum_mset (mset (map f (rev (sort_key k (rev xs))))) = sum_mset (mset (map f xs))"
    by (rule arg_cong)
  then show ?thesis by (simp only: sum_mset_sum_list)
qed

lemma sorted_desc_rev_sort_key:
  "sorted_wrt (\<ge>) (map k (rev (sort_key k xs)))"
proof -
  have "sorted (map k (sort_key k xs))" by (rule sorted_sort_key)
  then show ?thesis
    by (simp add: rev_map [symmetric] sorted_wrt_rev del: rev_map)
qed

lemma percent_sum:
  fixes m :: lang_map
  assumes "sum_list (map snd m) \<noteq> 0"
  shows "(\<Sum>x\<leftarrow>m. (of_int (snd x) / of_int (sum_list (map snd m)) * 100 :: rat)) = 100"
proof -
  let ?t = "of_int (sum_list (map snd m)) :: rat"
  have "(\<Sum>x\<leftarrow>m. (of_int (snd x) / t * 100)) = of_int (sum_list (map snd m)) / t * 100"
    for t :: rat
    by (induction m) (simp_all add: algebra_simps add_divide_distrib)
  from this [of ?t] show ?thesis using assms by simp
qed

lemma calculate_percentages_nonzero:
  assumes "sum_list (map snd language_bytes) \<noteq> 0"
  shows "calculate_percentages language_bytes
         = Inr (rev (sort_key percent_of
                  (rev (map (\<lambda>(lang, n). (lang, of_int n / of_int (sum_list (map snd language_bytes)) * 100, n))
                          language_bytes))))"
proof -
  from assms have "language_bytes \<noteq> []" by auto
  with assms show ?thesis by (simp add: calculate_percentages_def)
qed

text \<open>
  C2. For every mapping with a positive total (so for every non-empty mapping of
  non-negative counts with a positive total) \<open>calculate_percentages\<close> returns a
  sequence whose percentages add up to exactly 100, the arithmetic being exact.
\<close>

theorem percentages_sum_to_100:
  assumes "0 < sum_list (map snd language_bytes)"
  shows "\<exists>ps. calculate_percentages language_bytes = Inr ps \<and> sum_list (map percent_of ps) = 100"
proof -
  let ?t = "sum_list (map snd language_bytes)"
  let ?f = "\<lambda>(lang, n). (lang, (of_int n / of_int ?t * 100 :: rat), n :: int)"
  from assms have nz: "?t \<noteq> 0" by simp
  have "sum_list (map percent_of (rev (sort_key percent_of (rev (map ?f language_bytes)))))
        = sum_list (map percent_of (map ?f language_bytes))"
    by (rule sum_list_rev_sort_key)
  also have "map percent_of (map ?f language_bytes)
             = map (\<lambda>x. of_int (snd x) / of_int ?t * 100) language_bytes"
    by (simp add: percent_of_def split_def)
  also have "sum_list \<dots> = 100"
    by (rule percent_sum [OF nz])
  finally show ?thesis
    using calculate_percentages_nonzero [OF nz] by simp
qed

theorem percentages_sum_to_100_witness:
  "0 < sum_list (map snd [(ascii ''Python'', 3000), (ascii ''C'', 1000 :: int)])
   \<and> calculate_percentages [(ascii ''Python'', 3000), (ascii ''C'', 1000)]
       = Inr [(ascii ''Python'', 75, 3000), (ascii ''C'', 25, 1000)]
   \<and> sum_list (map percent_of [(ascii ''Python'', 75, 3000), (ascii ''C'', 25, 1000)]) = 100"
proof -
  have h: "0 < sum_list (map snd [(ascii ''Python'', 3000), (ascii ''C'', 1000 :: int)])"
    by simp
  have e: "calculate_percentages [(ascii ''Python'', 3000), (ascii ''C'', 1000)]
       = Inr [(ascii ''Python'', 75, 3000), (ascii ''C'', 25, 1000)]"
    by (simp add: calculate_percentages_def percent_of_def)
  from percentages_sum_to_100 [OF h] e
  have "sum_list (map percent_of [(ascii ''Python'', 75, 3000), (ascii ''C'', 25, 1000)]) = 100"
    by auto
  with h e show ?thesis by blast
qed

subsection \<open>The ranking with floats\<close>

lemma percent_entries_Inr:
  "percent_entries t m = Inr ps \<Longrightarrow>
   map (\<lambda>(lang, percent, n). (lang, Inr percent :: py_error + pyfloat, n)) ps
   = map (\<lambda>(lang, n). (lang, percentage n t, n)) m"
proof (induction m arbitrary: ps)
  case Nil
  then show ?case by simp
next
  case (Cons x m)
  obtain lang n where x: "x = (lang, n)" by (cases x)
  from Cons.prems obtain p qs where
    p: "percentage n t = Inr p" and qs: "percent_entries t m = Inr qs"
    and ps: "ps = (lang, p, n) # qs"
    by (auto simp: x split: sum.splits)
  from Cons.IH [OF qs] show ?case by (simp add: x p ps)
qed

lemma percent_entries_returns:
  "(\<And>x. x \<in> set m \<Longrightarrow> \<exists>p. percentage (snd x) t = Inr p) \<Longrightarrow> \<exists>ps. percent_entries t m = Inr ps"
proof (induction m)
  case Nil
  then show ?case by simp
next
  case (Cons x m)
  obtain lang n where x: "x = (lang, n)" by (cases x)
  from Cons.prems [of x] obtain p where p: "percentage n t = Inr p" by (auto simp: x)
  from Cons.IH Cons.prems obtain qs where "percent_entries t m = Inr qs" by auto
  with p show ?case by (simp add: x)
qed

lemma percentage_fraction:
  assumes "0 \<le> a" and "a \<le> b" and "0 < b"
  shows "\<exists>p. percentage a b = Inr p"
proof -
  from truediv_fraction [OF assms] obtain f where "truediv a b = Inr f" ..
  then show ?thesis by (simp add: percentage_def)
qed

lemma count_le_total:
  fixes m :: lang_map
  assumes "\<And>x. x \<in> set m \<Longrightarrow> 0 \<le> snd x" and "x \<in> set m"
  shows "snd x \<le> sum_list (map snd m)"
  using assms
proof (induction m)
  case Nil
  then show ?case by simp
next
  case (Cons y m)
  have rest: "0 \<le> sum_list (map snd m)"
    by (rule sum_list_nonneg) (use Cons.prems(1) in auto)
  show ?case
  proof (cases "x = y")
    case True
    with rest show ?thesis by simp
  next
    case False
    with Cons.prems(2) have "x \<in> set m" by simp
    with Cons.IH Cons.prems(1) have "snd x \<le> sum_list (map snd m)" by simp
    moreover have "0 \<le> snd y" by (rule Cons.prems(1)) simp
    ultimately show ?thesis by simp
  qed
qed

lemma calculate_percentages_f64_returns:
  assumes "\<And>x. x \<in> set language_bytes \<Longrightarrow> 0 \<le> snd x"
    and "sum_list (map snd language_bytes) \<noteq> 0"
  shows "\<exists>ps. calculate_percentages_f64 language_bytes = Inr ps"
proof -
  let ?t = "sum_list (map snd language_bytes)"
  have "0 \<le> ?t" by (rule sum_list_nonneg) (use assms(1) in auto)
  with assms(2) have pos: "0 < ?t" by simp
  have "\<exists>p. percentage (snd x) ?t = Inr p" if "x \<in> set language_bytes" for x
    using assms(1) [OF that] count_le_total [OF assms(1) that] pos
    by (rule percentage_fraction)
  then obtain es where "percent_entries ?t language_bytes = Inr es"
    using percent_entries_returns by blast
  then show ?thesis by (simp add: calculate_percentages_f64_def)
qed

lemma calculate_percentages_f64_Inr:
  assumes "calculate_percentages_f64 language_bytes = Inr ps"
  shows "mset (map (\<lambda>(lang, percent, n). (lang, Inr percent :: py_error + pyfloat, n)) ps)
         = mset (map (\<lambda>(lang, n). (lang, percentage n (sum_list (map snd language_bytes)), n))
                   language_bytes)"
    and "length ps = length language_bytes"
    and "sorted_wrt (\<ge>) (map (\<lambda>x. float_key (fpercent_of x)) ps)"
proof -
  let ?t = "sum_list (map snd language_bytes)"
  let ?f = "\<lambda>(lang, percent, n). (lang, Inr percent :: py_error + pyfloat, n :: int)"
  let ?k = "\<lambda>x. float_key (fpercent_of x)"
  show "mset (map ?f ps) = mset (map (\<lambda>(lang, n). (lang, percentage n ?t, n)) language_bytes)"
    and "length ps = length language_bytes"
    and "sorted_wrt (\<ge>) (map ?k ps)"
  proof (atomize (full), cases "language_bytes = []")
    case True
    with assms show "mset (map ?f ps) = mset (map (\<lambda>(lang, n). (lang, percentage n ?t, n)) language_bytes)
      \<and> length ps = length language_bytes \<and> sorted_wrt (\<ge>) (map ?k ps)"
      by (simp add: calculate_percentages_f64_def)
  next
    case False
    with assms obtain es where es: "percent_entries ?t language_bytes = Inr es"
      and ps: "ps = rev (sort_key ?k (rev es))"
      by (auto simp: calculate_percentages_f64_def split: sum.splits)
    from percent_entries_Inr [OF es]
    have m: "map ?f es = map (\<lambda>(lang, n). (lang, percentage n ?t, n)) language_bytes" .
    have "mset (map ?f ps) = mset (map ?f es)" by (simp add: ps)
    then have 1: "mset (map ?f ps) = mset (map (\<lambda>(lang, n). (lang, percentage n ?t, n)) language_bytes)"
      by (simp only: m)
    have "length (map ?f es) = length language_bytes" by (simp only: m length_map)
    then have 2: "length ps = length language_bytes" by (simp add: ps)
    have 3: "sorted_wrt (\<ge>) (map ?k ps)"
      unfolding ps by (rule sorted_desc_rev_sort_key)
    from 1 2 3 show "mset (map ?f ps) = mset (map (\<lambda>(lang, n). (lang, percentage n ?t, n)) language_bytes)
      \<and> length ps = length language_bytes \<and> sorted_wrt (\<ge>) (map ?k ps)"
      by blast
  qed
qed

lemma percent_entries_zero_total:
  "m \<noteq> [] \<Longrightarrow> percent_entries 0 m = Inl ZeroDivisionError"
proof -
  assume "m \<noteq> []"
  then obtain lang n rest where "m = (lang, n) # rest" by (cases m) auto
  then show ?thesis by (simp add: percentage_def truediv_def)
qed

lemma entry_percentage:
  assumes "mset (map (\<lambda>(lang, percent, n). (lang, Inr percent :: py_error + pyfloat, n)) ps)
           = mset (map (\<lambda>(lang, n). (lang, percentage n t, n)) m)"
    and "x \<in> set ps"
  shows "(fst x, snd (snd x)) \<in> set m \<and> percentage (snd (snd x)) t = Inr (fpercent_of x)"
proof -
  let ?f = "\<lambda>(lang, percent, n). (lang, Inr percent :: py_error + pyfloat, n :: int)"
  let ?g = "\<lambda>(lang, n). (lang, percentage n t, n)"
  from assms(1) have "set_mset (mset (map ?f ps)) = set_mset (mset (map ?g m))" by (rule arg_cong)
  then have s: "set (map ?f ps) = set (map ?g m)" by (simp only: set_mset_mset)
  from assms(2) have "?f x \<in> set (map ?f ps)" by simp
  with s have "?f x \<in> set (map ?g m)" by simp
  then obtain y where y: "y \<in> set m" and e: "?f x = ?g y" by auto
  obtain lang p n where x: "x = (lang, p, n)" by (cases x)
  obtain lang' n' where y': "y = (lang', n')" by (cases y)
  from e have "lang' = lang" "n' = n" "percentage n t = Inr p" by (simp_all add: x y')
  with y show ?thesis by (simp add: x y' fpercent_of_def)
qed

text \<open>
  C3, as the code has it, with the floats of the interpreter
  (\<open>calculate_percentages_f64\<close>). \<open>calculate_percentages\<close> returns the empty sequence
  for the empty mapping. For every non-empty mapping of non-negative counts that do not add up
  to zero it returns one entry \<open>(language, percent, bytes)\<close> for each item of the
  mapping, \<open>percent\<close> being the float that \<open>(bytes / total) * 100\<close> evaluates to, in an
  order in which the percentages do not increase; each percentage is a finite float
  between 0 and 100 and differs from the exact \<open>bytes / total * 100\<close> by at most
  \<open>2 ^ -45\<close>. Whatever the counts are, a sequence that is returned holds one such entry
  for each item and is ordered in this way. A non-empty mapping whose counts add up to
  zero raises \<open>ZeroDivisionError\<close>.
\<close>

theorem calculate_percentages_f64_ranked:
  "calculate_percentages_f64 [] = Inr []
   \<and> (language_bytes \<noteq> [] \<and> (\<forall>x\<in>set language_bytes. 0 \<le> snd x)
        \<and> sum_list (map snd language_bytes) \<noteq> 0 \<longrightarrow>
        (\<exists>ps. calculate_percentages_f64 language_bytes = Inr ps
           \<and> mset (map (\<lambda>(lang, percent, n). (lang, Inr percent, n)) ps)
               = mset (map (\<lambda>(lang, n).
                              (lang, percentage n (sum_list (map snd language_bytes)), n))
                         language_bytes)
           \<and> length ps = length language_bytes
           \<and> sorted_wrt (\<ge>) (map (\<lambda>x. float_key (fpercent_of x)) ps)
           \<and> (\<forall>x\<in>set ps. \<exists>p. fpercent_of x = Finite p \<and> 0 \<le> p \<and> p \<le> 100
                 \<and> \<bar>p - of_int (snd (snd x)) / of_int (sum_list (map snd language_bytes)) * 100\<bar>
                     \<le> 1 / 2 ^ 45)))
   \<and> (calculate_percentages_f64 language_bytes = Inr qs \<longrightarrow>
        mset (map (\<lambda>(lang, percent, n). (lang, Inr percent, n)) qs)
          = mset (map (\<lambda>(lang, n).
                         (lang, percentage n (sum_list (map snd language_bytes)), n))
                    language_bytes)
        \<and> length qs = length language_bytes
        \<and> sorted_wrt (\<ge>) (map (\<lambda>x. float_key (fpercent_of x)) qs))
   \<and> (language_bytes \<noteq> [] \<and> sum_list (map snd language_bytes) = 0 \<longrightarrow>
        calculate_percentages_f64 language_bytes = Inl ZeroDivisionError)"
proof (intro conjI impI)
  show "calculate_percentages_f64 [] = Inr []"
    by (simp add: calculate_percentages_f64_def)
next
  let ?t = "sum_list (map snd language_bytes)"
  assume h: "language_bytes \<noteq> [] \<and> (\<forall>x\<in>set language_bytes. 0 \<le> snd x) \<and> ?t \<noteq> 0"
  then have nonneg: "\<And>x. x \<in> set language_bytes \<Longrightarrow> 0 \<le> snd x" and nz: "?t \<noteq> 0"
    by blast+
  have "0 \<le> ?t" by (rule sum_list_nonneg) (use nonneg in auto)
  with nz have pos: "0 < ?t" by simp
  from calculate_percentages_f64_returns [OF nonneg nz]
  obtain ps where ps: "calculate_percentages_f64 language_bytes = Inr ps" by blast
  note r = calculate_percentages_f64_Inr [OF ps]
  have "\<exists>p. fpercent_of x = Finite p \<and> 0 \<le> p \<and> p \<le> 100
          \<and> \<bar>p - of_int (snd (snd x)) / of_int ?t * 100\<bar> \<le> 1 / 2 ^ 45"
    if "x \<in> set ps" for x
  proof -
    from entry_percentage [OF r(1) that]
    have m: "(fst x, snd (snd x)) \<in> set language_bytes"
      and p: "percentage (snd (snd x)) ?t = Inr (fpercent_of x)" by blast+
    from nonneg [OF m] have 0: "0 \<le> snd (snd x)" by simp
    from count_le_total [OF nonneg m] have 1: "snd (snd x) \<le> ?t" by simp
    from percentage_value [OF 0 1 pos] p show ?thesis by auto
  qed
  with ps r show "\<exists>ps. calculate_percentages_f64 language_bytes = Inr ps
           \<and> mset (map (\<lambda>(lang, percent, n). (lang, Inr percent, n)) ps)
               = mset (map (\<lambda>(lang, n). (lang, percentage n ?t, n)) language_bytes)
           \<and> length ps = length language_bytes
           \<and> sorted_wrt (\<ge>) (map (\<lambda>x. float_key (fpercent_of x)) ps)
           \<and> (\<forall>x\<in>set ps. \<exists>p. fpercent_of x = Finite p \<and> 0 \<le> p \<and> p \<le> 100
                 \<and> \<bar>p - of_int (snd (snd x)) / of_int ?t * 100\<bar> \<le> 1 / 2 ^ 45)"
    by blast
next
  assume qs: "calculate_percentages_f64 language_bytes = Inr qs"
  show "mset (map (\<lambda>(lang, percent, n). (lang, Inr percent, n)) qs)
          = mset (map (\<lambda>(lang, n).
                         (lang, percentage n (sum_list (map snd language_bytes)), n))
                    language_bytes)"
    by (rule calculate_percentages_f64_Inr(1) [OF qs])
  show "length qs = length language_bytes"
    by (rule calculate_percentages_f64_Inr(2) [OF qs])
  show "sorted_wrt (\<ge>) (map (\<lambda>x. float_key (fpercent_of x)) qs)"
    by (rule calculate_percentages_f64_Inr(3) [OF qs])
next
  assume "language_bytes \<noteq> [] \<and> sum_list (map snd language_bytes) = 0"
  then show "calculate_percentages_f64 language_bytes = Inl ZeroDivisionError"
    by (simp add: calculate_percentages_f64_def percent_entries_zero_total)
qed

theorem calculate_percentages_f64_ranked_witness:
  "[(ascii ''a'', 23), (ascii ''b'', 137 :: int)] \<noteq> []
   \<and> (0 :: int) \<le> 23 \<and> (0 :: int) \<le> 137
   \<and> sum_list (map snd [(ascii ''a'', 23), (ascii ''b'', 137 :: int)]) \<noteq> 0
   \<and> calculate_percentages_f64 [(ascii ''a'', 23), (ascii ''b'', 137)]
       = Inr [(ascii ''b'', Finite (685 / 8), 137),
              (ascii ''a'', Finite (8092405580431359 / 562949953421312), 23)]
   \<and> sorted_wrt (\<ge>) (map (\<lambda>x. float_key (fpercent_of x))
        [(ascii ''b'', Finite (685 / 8), 137),
         (ascii ''a'', Finite (8092405580431359 / 562949953421312), 23 :: int)])
   \<and> length [(ascii ''b'', Finite (685 / 8), 137),
              (ascii ''a'', Finite (8092405580431359 / 562949953421312), 23 :: int)]
       = length [(ascii ''a'', 23), (ascii ''b'', 137 :: int)]
   \<and> \<bar>8092405580431359 / 562949953421312 - 23 / 160 * 100\<bar> \<le> (1 / 2 ^ 45 :: rat)"
proof -
  let ?m = "[(ascii ''a'', 23), (ascii ''b'', 137 :: int)]"
  let ?ps = "[(ascii ''b'', Finite (685 / 8), 137),
              (ascii ''a'', Finite (8092405580431359 / 562949953421312), 23 :: int)]"
  have h: "?m \<noteq> [] \<and> (\<forall>x\<in>set ?m. 0 \<le> snd x) \<and> sum_list (map snd ?m) \<noteq> 0"
    by simp
  have p1: "percentage 23 160 = Inr (Finite (8092405580431359 / 562949953421312))"
    by (simp add: eval_f64)
  have p2: "percentage 137 160 = Inr (Finite (685 / 8))"
    by (simp add: eval_f64)
  have e: "calculate_percentages_f64 ?m = Inr ?ps"
    by (simp add: calculate_percentages_f64_def p1 p2 fpercent_of_def float_key_def)
  have h': "?m \<noteq> [] \<and> (0 :: int) \<le> 23 \<and> (0 :: int) \<le> 137 \<and> sum_list (map snd ?m) \<noteq> 0"
    by simp
  note t = calculate_percentages_f64_ranked [of ?m ?ps]
  from t [THEN conjunct2, THEN conjunct1, THEN mp, OF h] obtain ps' where
    r: "calculate_percentages_f64 ?m = Inr ps'"
    and s': "sorted_wrt (\<ge>) (map (\<lambda>x. float_key (fpercent_of x)) ps')"
    and l': "length ps' = length ?m"
    and bd: "\<forall>x\<in>set ps'. \<exists>p. fpercent_of x = Finite p \<and> 0 \<le> p \<and> p \<le> 100
          \<and> \<bar>p - of_int (snd (snd x)) / of_int (sum_list (map snd ?m)) * 100\<bar> \<le> 1 / 2 ^ 45"
    by blast
  from r e have ps': "ps' = ?ps" by simp
  from s' have s: "sorted_wrt (\<ge>) (map (\<lambda>x. float_key (fpercent_of x)) ?ps)"
    unfolding ps' .
  from l' have l: "length ?ps = length ?m" unfolding ps' .
  have "(ascii ''a'', Finite (8092405580431359 / 562949953421312), 23 :: int) \<in> set ps'"
    unfolding ps' by simp
  with bd have "\<exists>p. fpercent_of (ascii ''a'', Finite (8092405580431359 / 562949953421312), 23 :: int)
                  = Finite p
          \<and> \<bar>p - of_int (snd (snd (ascii ''a'', Finite (8092405580431359 / 562949953421312), 23 :: int)))
                   / of_int (sum_list (map snd ?m)) * 100\<bar> \<le> 1 / 2 ^ 45"
    by blast
  then have b: "\<bar>8092405580431359 / 562949953421312 - 23 / 160 * 100\<bar> \<le> (1 / 2 ^ 45 :: rat)"
    by (simp add: fpercent_of_def)
  from h' e s l b show ?thesis by blast
qed

text \<open>
  The claim as the spec states it (every non-empty mapping) fails on a mapping whose
  counts add up to zero: the division raises.
\<close>

theorem calculate_percentages_f64_zero_total_counterexample:
  "[(ascii ''C'', 0 :: int)] \<noteq> []
   \<and> calculate_percentages_f64 [(ascii ''C'', 0)] = Inl ZeroDivisionError"
  by (simp add: calculate_percentages_f64_def percentage_def truediv_def)

text \<open>
  The order is that of the floats: the percentages of \<open>2 ^ 53\<close> and \<open>2 ^ 53 + 1\<close> out
  of their sum are both the float 50, and the two entries keep the order of the mapping,
  the sort being stable.
\<close>

lemma calculate_percentages_f64_tie:
  "calculate_percentages_f64 [(ascii ''a'', 9007199254740992), (ascii ''b'', 9007199254740993)]
   = Inr [(ascii ''a'', Finite 50, 9007199254740992), (ascii ''b'', Finite 50, 9007199254740993)]"
proof -
  have a: "percentage 9007199254740992 18014398509481985 = Inr (Finite 50)"
    by (simp add: eval_f64)
  have b: "percentage 9007199254740993 18014398509481985 = Inr (Finite 50)"
    by (simp add: eval_f64)
  show ?thesis
    by (simp add: calculate_percentages_f64_def a b fpercent_of_def float_key_def)
qed

section \<open>The renderer\<close>

lemma digits_are_digits: "c \<in> set (digits n) \<Longrightarrow> 48 \<le> c \<and> c \<le> 57"
proof (induction n rule: digits.induct)
  case (1 n)
  show ?case
  proof (cases "n < 10")
    case True
    with 1(2) show ?thesis by (subst (asm) digits.simps) simp
  next
    case False
    with 1 show ?thesis by (subst (asm) (2) digits.simps) auto
  qed
qed

lemma digits_value: "foldl (\<lambda>a c. 10 * a + (c - 48)) 0 (digits n) = n"
proof (induction n rule: digits.induct)
  case (1 n)
  show ?case
  proof (cases "n < 10")
    case True
    then show ?thesis by (subst digits.simps) simp
  next
    case False
    with 1 show ?thesis by (subst digits.simps) simp
  qed
qed



text \<open>
  C4. For every percentage between 0 and 100 the bar of \<open>format_stats_markdown\<close> is
  \<open>floor (20 * percent / 100)\<close> filled glyphs followed by the empty glyphs that bring
  its length to 20. At 50 it is 10 filled and 10 empty glyphs, at 0 it is 20 empty ones,
  at 100 it is 20 filled ones. The row of an entry holds this bar.
\<close>

theorem bar_rendering:
  "(0 \<le> percent \<and> percent \<le> 100 \<longrightarrow>
      bar percent = replicate (nat \<lfloor>20 * percent / 100\<rfloor>) 9608
                    @ replicate (20 - nat \<lfloor>20 * percent / 100\<rfloor>) 9617
      \<and> nat \<lfloor>20 * percent / 100\<rfloor> \<le> 20
      \<and> length (bar percent) = 20)
   \<and> bar 50 = replicate 10 9608 @ replicate 10 9617
   \<and> bar 0 = replicate 20 9617
   \<and> bar 100 = replicate 20 9608
   \<and> format_stats_markdown [(lang, percent, n)]
       = table_header @ ascii ''| '' @ lang @ ascii '' | '' @ format_2f percent @ ascii ''% ''
         @ bar percent @ ascii '' | '' @ size_str n @ ascii '' |'' @ [10]"
proof (intro conjI impI)
  assume p: "0 \<le> percent \<and> percent \<le> 100"
  then have f: "0 \<le> \<lfloor>20 * percent / 100\<rfloor>" "\<lfloor>20 * percent / 100\<rfloor> \<le> 20"
    by (simp_all add: floor_le_iff)
  from p have fl: "filled_length percent = \<lfloor>20 * percent / 100\<rfloor>"
    by (simp add: filled_length_def)
  from f have n: "nat (20 - \<lfloor>20 * percent / 100\<rfloor>) = 20 - nat \<lfloor>20 * percent / 100\<rfloor>"
    by linarith
  show "bar percent = replicate (nat \<lfloor>20 * percent / 100\<rfloor>) 9608
                    @ replicate (20 - nat \<lfloor>20 * percent / 100\<rfloor>) 9617"
    by (simp only: bar_def fl n)
  show "nat \<lfloor>20 * percent / 100\<rfloor> \<le> 20" using f by linarith
  have "length (bar percent)
        = nat \<lfloor>20 * percent / 100\<rfloor> + nat (20 - \<lfloor>20 * percent / 100\<rfloor>)"
    by (simp only: bar_def fl length_append length_replicate)
  also have "\<dots> = 20" using f by linarith
  finally show "length (bar percent) = 20" .
next
  show "bar 50 = replicate 10 9608 @ replicate 10 9617"
    by (simp add: bar_def filled_length_def)
next
  show "bar 0 = replicate 20 9617"
    by (simp add: bar_def filled_length_def)
next
  show "bar 100 = replicate 20 9608"
    by (simp add: bar_def filled_length_def)
next
  show "format_stats_markdown [(lang, percent, n)]
       = table_header @ ascii ''| '' @ lang @ ascii '' | '' @ format_2f percent @ ascii ''% ''
         @ bar percent @ ascii '' | '' @ size_str n @ ascii '' |'' @ [10]"
    by (simp add: format_stats_markdown_def table_row_def)
qed

theorem bar_rendering_witness:
  "(0 :: rat) \<le> 33 \<and> (33 :: rat) \<le> 100
   \<and> bar 33 = replicate 6 9608 @ replicate 14 9617
   \<and> length (bar 33) = 20"
proof -
  have h: "(0 :: rat) \<le> 33 \<and> (33 :: rat) \<le> 100" by simp
  have "\<lfloor>20 * (33 :: rat) / 100\<rfloor> = 6" by (rule floor_unique) simp_all
  then have fl: "nat \<lfloor>20 * (33 :: rat) / 100\<rfloor> = 6" by simp
  from bar_rendering [of 33] h
  have "bar 33 = replicate (nat \<lfloor>20 * (33 :: rat) / 100\<rfloor>) 9608
                 @ replicate (20 - nat \<lfloor>20 * (33 :: rat) / 100\<rfloor>) 9617"
    and "length (bar 33) = 20"
    by blast+
  with h show ?thesis by (simp only: fl) simp
qed








end
